theory Spec2Isabelle
  imports Main "HOL-Library.Extended_Nat"
begin

section \<open>JavaScript values, objects and the heap\<close>

text \<open>
  The values the logging adapter handles are JavaScript values. Primitives are modelled
  directly; every object (array, plain object, error) lives in a heap and is denoted by
  its address, so that reference identity (\<open>===\<close>), sharing and cyclic object graphs
  are expressible. Numbers are modelled as integers, with \<open>NaN\<close> apart: the code
  compares numbers and renders them, it does no floating point arithmetic, and \<open>NaN\<close>
  is the one value that \<open>===\<close> does not identify with itself. \<open>strictEq\<close> is
  \<open>===\<close>; the plain equality of the model is the comparison of \<open>Array.includes\<close> and
  of \<open>Set.has\<close>, which find \<open>NaN\<close>.
\<close>

datatype val =
    JUndefined
  | JNull
  | JBool bool
  | JNum int
  | JNaN
  | JStr string
  | JBigInt int
  | JRef nat

definition strictEq :: "val \<Rightarrow> val \<Rightarrow> bool" where
  "strictEq v w = (v = w \<and> v \<noteq> JNaN)"

text \<open>
  What an \<open>Error\<close> instance exposes to \<open>lib/serialize.js\<close>: the property reads
  \<open>name\<close>, \<open>message\<close>, \<open>stack\<close>, \<open>cause\<close>, \<open>data\<close>, \<open>code\<close>, \<open>isBoom\<close>,
  \<open>output?.statusCode\<close>, \<open>constructor.name\<close> and the test
  \<open>constructor === internals.boomCtor\<close>.
\<close>

record errfields =
  ename :: string
  message :: string
  stack :: val
  cause :: val
  edata :: val
  code :: val
  isBoom :: bool
  ctorIsBoom :: bool
  ctorName :: string
  statusCode :: val

text \<open>
  The body of an object is what \<open>Array.isArray\<close>, indexing and \<open>Object.keys\<close> observe:
  the elements of an array, or the own enumerable string-keyed properties of any other
  object, in key order. Properties whose value is a function are left out of the body:
  the sanitizer returns a function as it is, so they never make a difference there.

  \<open>toJSON\<close> is the object's \<open>toJSON\<close> method when
  \<open>typeof obj.toJSON === 'function'\<close>. The method is code of the object: it is
  modelled as a function that reads the bodies of the heap, the address of the object
  it is called on (\<open>this\<close>) and the key it is called with, and returns a value of the
  same heap; it neither writes nor allocates nor throws. With it comes how the method
  is attached, which decides whether a copy has it too: as an own enumerable property
  (\<open>Object.assign\<close> copies it, \<open>slice\<close> does not), as a method of the object's class
  (\<open>slice\<close> creates the copy through the class of the array, so the copy inherits it;
  a copy made with \<open>Object.create(null)\<close> has no class), or in a way that no copy
  keeps (an own property that is not enumerable).

  \<open>ctor\<close> is what \<open>obj.constructor.name\<close> reads on an object that is no \<open>Error\<close>,
  \<open>None\<close> when the object has no constructor (as an object without prototype).
  \<open>err\<close> is present exactly when the object is an \<open>instanceof Error\<close>.
\<close>

datatype body = Array "val list" | Object "(string \<times> val) list"

datatype attach = OwnProperty | ClassMethod | Unlisted

record obj =
  body :: body
  toJSON :: "(attach \<times> (body list \<Rightarrow> nat \<Rightarrow> string \<Rightarrow> val)) option"
  ctor :: "string option"
  err :: "errfields option"

type_synonym heap = "obj list"

text \<open>
  A thrown value, as far as a \<open>catch\<close> block of this program reads it: whether it is
  falsy, and for a truthy value the results of \<open>err.constructor.name\<close> (\<open>None\<close> when
  \<open>err.constructor\<close> is \<open>undefined\<close> or \<open>null\<close>, so that reading \<open>.name\<close> is itself a
  \<open>TypeError\<close>), \<open>err.message\<close> and \<open>err.stack\<close>.
\<close>

datatype thrown = Falsy | Truthy "string option" val val

definition TypeError :: "string \<Rightarrow> thrown" where
  "TypeError msg = Truthy (Some ''TypeError'') (JStr msg) (JStr (''TypeError: '' @ msg))"

datatype 'a outcome = Done 'a | Throw thrown

fun truthy :: "val \<Rightarrow> bool" where
  "truthy JUndefined = False"
| "truthy JNull = False"
| "truthy (JBool b) = b"
| "truthy (JNum n) = (n \<noteq> 0)"
| "truthy JNaN = False"
| "truthy (JStr s) = (s \<noteq> [])"
| "truthy (JBigInt n) = (n \<noteq> 0)"
| "truthy (JRef a) = True"

subsection \<open>Decimal rendering\<close>

definition digit_char :: "nat \<Rightarrow> char" where
  "digit_char d = ''0123456789'' ! d"

function show_nat :: "nat \<Rightarrow> string" where
  "show_nat n = (if n < 10 then [digit_char n] else show_nat (n div 10) @ [digit_char (n mod 10)])"
  by pat_completeness auto
termination
  by (relation "measure id") auto

declare show_nat.simps [simp del]

definition show_int :: "int \<Rightarrow> string" where
  "show_int i = (if i < 0 then CHR ''-'' # show_nat (nat (- i)) else show_nat (nat i))"

section \<open>The sanitizer: \<open>safeJsonObject\<close> (\<open>lib/utils.js\<close>)\<close>

text \<open>
  \<open>safeJsonObject(obj, parentKey = '', stack = [])\<close> recurses through arrays and objects.
  The \<open>stack\<close> array is shared by reference between the recursive calls, pushed before
  a container is traversed and popped after, and the heap changes when a copy is
  allocated or written: both are threaded through the model as state and returned.

  The first argument bounds the depth of the recursion: \<open>None\<close> means that the bound
  was reached before the call returned. Theorem \<open>safeJsonObject_total\<close> shows that a
  bound above the number of objects of the heap is never reached. The two \<open>for\<close> loops
  are \<open>arrayLoop\<close> and \<open>objectLoop\<close>; they run over the indices below
  \<open>orig.length\<close> and over \<open>Object.keys(orig)\<close>, read \<open>orig[i]\<close> from the current heap
  at each iteration, and carry the variable \<open>obj\<close> (the address of the container that
  will be returned). The test \<open>value !== jsonValue\<close> is the negation of \<open>strictEq\<close>:
  it holds for a \<open>NaN\<close> that comes back as it went in.
\<close>

definition isObjectVal :: "val \<Rightarrow> bool" where
  "isObjectVal v = (case v of JNull \<Rightarrow> True | JRef a \<Rightarrow> True | _ \<Rightarrow> False)"

definition callToJSON :: "heap \<Rightarrow> val \<Rightarrow> string \<Rightarrow> val" where
  "callToJSON h v parentKey =
     (case v of
        JRef a \<Rightarrow> (if a < length h then
                     (case toJSON (h ! a) of
                        Some (how, f) \<Rightarrow> f (map body h) a parentKey
                      | None \<Rightarrow> v)
                   else v)
      | _ \<Rightarrow> v)"

definition arrayGet :: "heap \<Rightarrow> nat \<Rightarrow> nat \<Rightarrow> val" where
  "arrayGet h a i =
     (case body (h ! a) of
        Array es \<Rightarrow> (if i < length es then es ! i else JUndefined)
      | Object ps \<Rightarrow> JUndefined)"

definition objectGet :: "heap \<Rightarrow> nat \<Rightarrow> string \<Rightarrow> val" where
  "objectGet h a k =
     (case body (h ! a) of
        Object ps \<Rightarrow> (case map_of ps k of Some v \<Rightarrow> v | None \<Rightarrow> JUndefined)
      | Array es \<Rightarrow> JUndefined)"

text \<open>\<open>obj.slice()\<close> and \<open>Object.assign(Object.create(null), orig)\<close>: a fresh object at
  the next free address. The slice of an array holds its elements, is an array of the
  same class, and has none of its other own properties. The copy of an object holds
  its own enumerable properties, an own \<open>toJSON\<close> among them, and has no prototype:
  no constructor and no inherited method. Neither is an \<open>Error\<close>.\<close>

definition copyOf :: "obj \<Rightarrow> obj" where
  "copyOf ob =
     (case body ob of
        Array es \<Rightarrow>
          \<lparr> body = Array es,
            toJSON = (case toJSON ob of Some (ClassMethod, f) \<Rightarrow> Some (ClassMethod, f) | _ \<Rightarrow> None),
            ctor = ctor ob, err = None \<rparr>
      | Object ps \<Rightarrow>
          \<lparr> body = Object ps,
            toJSON = (case toJSON ob of Some (OwnProperty, f) \<Rightarrow> Some (OwnProperty, f) | _ \<Rightarrow> None),
            ctor = None, err = None \<rparr>)"

definition alloc :: "heap \<Rightarrow> obj \<Rightarrow> nat \<times> heap" where
  "alloc h ob = (length h, h @ [ob])"

definition arraySet :: "heap \<Rightarrow> nat \<Rightarrow> nat \<Rightarrow> val \<Rightarrow> heap" where
  "arraySet h a i v =
     (case body (h ! a) of
        Array es \<Rightarrow> h[a := (h ! a)\<lparr> body := Array (es[i := v]) \<rparr>]
      | Object ps \<Rightarrow> h)"

fun assocSet :: "(string \<times> val) list \<Rightarrow> string \<Rightarrow> val \<Rightarrow> (string \<times> val) list" where
  "assocSet [] k v = [(k, v)]"
| "assocSet ((k', v') # ps) k v = (if k' = k then (k, v) # ps else (k', v') # assocSet ps k v)"

definition objectSet :: "heap \<Rightarrow> nat \<Rightarrow> string \<Rightarrow> val \<Rightarrow> heap" where
  "objectSet h a k v =
     (case body (h ! a) of
        Object ps \<Rightarrow> h[a := (h ! a)\<lparr> body := Object (assocSet ps k v) \<rparr>]
      | Array es \<Rightarrow> h)"

definition circular :: val where
  "circular = JStr ''[Circular]''"

function (sequential) safeJsonObject ::
    "nat \<Rightarrow> val \<Rightarrow> string \<Rightarrow> val list \<Rightarrow> heap \<Rightarrow> (val outcome \<times> val list \<times> heap) option"
  and arrayLoop ::
    "nat \<Rightarrow> nat list \<Rightarrow> nat \<Rightarrow> nat \<Rightarrow> val list \<Rightarrow> heap \<Rightarrow> (nat outcome \<times> val list \<times> heap) option"
  and objectLoop ::
    "nat \<Rightarrow> string list \<Rightarrow> nat \<Rightarrow> nat \<Rightarrow> val list \<Rightarrow> heap \<Rightarrow> (nat outcome \<times> val list \<times> heap) option"
where
  "safeJsonObject 0 v parentKey stk h = None"
| "safeJsonObject (Suc n) v parentKey stk h =
     (if v = JUndefined \<or> v = JNull then Some (Done v, stk, h)
      else
        let origObj = v; ob = callToJSON h v parentKey in
        if isObjectVal ob then
          (if origObj \<in> set stk then Some (Done circular, stk, h)
           else
             let stk1 = stk @ [origObj] in
             (case ob of
                JRef orig \<Rightarrow>
                  (if orig < length h then
                     (case (case body (h ! orig) of
                              Array es \<Rightarrow> arrayLoop n [0..<length es] orig orig stk1 h
                            | Object ps \<Rightarrow> objectLoop n (map fst ps) orig orig stk1 h) of
                        None \<Rightarrow> None
                      | Some (Throw e, stk2, h2) \<Rightarrow> Some (Throw e, stk2, h2)
                      | Some (Done ob', stk2, h2) \<Rightarrow> Some (Done (JRef ob'), butlast stk2, h2))
                   else None)
              | _ \<Rightarrow>
                  Some (Throw (TypeError ''Cannot convert undefined or null to object''), stk1, h)))
        else
          (case ob of
             JBigInt i \<Rightarrow> Some (Done (JStr (show_int i @ ''n'')), stk, h)
           | _ \<Rightarrow> Some (Done ob, stk, h)))"
| "arrayLoop n [] orig ob stk h = Some (Done ob, stk, h)"
| "arrayLoop n (i # is) orig ob stk h =
     (let value = arrayGet h orig i in
      case safeJsonObject n value (show_nat i) stk h of
        None \<Rightarrow> None
      | Some (Throw e, stk1, h1) \<Rightarrow> Some (Throw e, stk1, h1)
      | Some (Done jsonValue, stk1, h1) \<Rightarrow>
          (if \<not> strictEq value jsonValue then
             (let (ob1, h2) = (if ob = orig then alloc h1 (copyOf (h1 ! ob)) else (ob, h1))
              in arrayLoop n is orig ob1 stk1 (arraySet h2 ob1 i jsonValue))
           else arrayLoop n is orig ob stk1 h1))"
| "objectLoop n [] orig ob stk h = Some (Done ob, stk, h)"
| "objectLoop n (key # keys) orig ob stk h =
     (let value = objectGet h orig key in
      case safeJsonObject n value key stk h of
        None \<Rightarrow> None
      | Some (Throw e, stk1, h1) \<Rightarrow> Some (Throw e, stk1, h1)
      | Some (Done jsonValue, stk1, h1) \<Rightarrow>
          (if \<not> strictEq value jsonValue then
             (let (ob1, h2) = (if ob = orig then alloc h1 (copyOf (h1 ! ob)) else (ob, h1))
              in objectLoop n keys orig ob1 stk1 (objectSet h2 ob1 key jsonValue))
           else objectLoop n keys orig ob stk1 h1))"
  by pat_completeness auto
termination
  by (relation "measures
        [case_sum (\<lambda>(n, _). n) (case_sum (\<lambda>(n, _). n) (\<lambda>(n, _). n)),
         case_sum (\<lambda>_. 0)
           (case_sum (\<lambda>(n, is, _). Suc (length is)) (\<lambda>(n, ks, _). Suc (length ks)))]")
    auto


text \<open>A call \<open>Utils.safeJsonObject(value)\<close> from the handlers and the serializer: the
  default \<open>parentKey = ''\<close> and a fresh \<open>stack = []\<close>. The depth bound is one more than
  the number of objects in the heap, which \<open>safeJsonObject_total\<close> shows to be enough.\<close>

definition safeJson :: "heap \<Rightarrow> val \<Rightarrow> (val outcome \<times> heap) option" where
  "safeJson h v =
     (case safeJsonObject (Suc (length h)) v [] [] h of
        None \<Rightarrow> None
      | Some (r, stk, h') \<Rightarrow> Some (r, h'))"

section \<open>Levels, loggers and log records (\<open>lib/index.js\<close>)\<close>

text \<open>Modelled from the spec: the level table of the structured logger
  (\<open>Pino().levels\<close>), which is not part of this repository. The spec orders the levels
  trace < debug < info < warn < error < fatal, each mapped to an integer, and its
  scenarios show trace = 10, info = 30, warn = 40, error = 50 and fatal = 60.\<close>

definition pinoValues :: "(string \<times> nat) list" where
  "pinoValues =
     [(''trace'', 10), (''debug'', 20), (''info'', 30),
      (''warn'', 40), (''error'', 50), (''fatal'', 60)]"

definition pinoLabels :: "int \<Rightarrow> string option" where
  "pinoLabels = map_of (map (\<lambda>(l, v). (int v, l)) pinoValues)"

text \<open>\<open>internals.prepareLevelMap\<close>: a \<open>Map\<close> seeded with the level table and overlaid
  with the user's \<open>tagLevels\<close> (tag, level name). A level name outside the table would
  store \<open>undefined\<close>, which \<open>lookupLevel\<close> treats as a missing key
  (\<open>undefined > level\<close> is false), so such a tag has no entry here.\<close>

definition prepareLevelMap :: "(string \<times> string) list \<Rightarrow> (string \<Rightarrow> int option)" where
  "prepareLevelMap tagLevels =
     fold (\<lambda>(key, lvl) m. m(key := map_option int (map_of pinoValues lvl)))
       tagLevels (map_option int \<circ> map_of pinoValues)"

text \<open>\<open>internals.lookupLevel\<close>: the \<open>for\<close> loop over the tags with the running maximum
  \<open>level\<close>, then the label of the result. The result is \<open>None\<close> when
  \<open>pinoLevels.labels[level]\<close> is \<open>undefined\<close>.\<close>

fun lookupLoop :: "string list \<Rightarrow> (string \<Rightarrow> int option) \<Rightarrow> int \<Rightarrow> int" where
  "lookupLoop [] m level = level"
| "lookupLoop (tag # tags) m level =
     (case m tag of
        Some tagLevel \<Rightarrow>
          (if tagLevel > level then lookupLoop tags m tagLevel else lookupLoop tags m level)
      | None \<Rightarrow> lookupLoop tags m level)"

definition lookupLevel :: "string list \<Rightarrow> string \<Rightarrow> (string \<Rightarrow> int option) \<Rightarrow> string option" where
  "lookupLevel tags defaultLevel m =
     (let level = lookupLoop tags m (- 1)
      in if level = - 1 then Some defaultLevel else pinoLabels level)"

subsection \<open>Loggers\<close>

text \<open>
  A log record as handed to a logger method: the logger, the level (the name of the
  method called), the merging object and the message. A field of the merging object is
  a JavaScript value, a nested object literal or an array literal.

  A logger is the part of the Pino logger the handlers use: its threshold
  (\<open>levelVal\<close>, possibly \<open>Infinity\<close> for \<open>silent\<close>) and what each property
  \<open>logger[name]\<close> does when called. The tests replace a method by \<open>null\<close> and by a
  function that throws, so a method is one of: not a function, a function that accepts
  the record, a function that throws.
\<close>

datatype field = FVal val | FObj "(string \<times> field) list" | FArr "field list"

datatype loggerId = ResponseLogger | EventLogger

record logcall =
  lc_logger :: loggerId
  lc_level :: string
  lc_payload :: "(string \<times> field) list"
  lc_msg :: string

datatype loggerMethod = NotAFunction | Writes | Throws thrown

record logger =
  lid :: loggerId
  levelVal :: enat
  meth :: "string \<Rightarrow> loggerMethod"

record hstate =
  heap :: heap
  log :: "logcall list"

definition isLevelEnabled :: "logger \<Rightarrow> string \<Rightarrow> bool" where
  "isLevelEnabled lg lvl =
     (case map_of pinoValues lvl of Some v \<Rightarrow> levelVal lg \<le> enat v | None \<Rightarrow> False)"

definition callLogger ::
    "logger \<Rightarrow> string \<Rightarrow> (string \<times> field) list \<Rightarrow> string \<Rightarrow> hstate \<Rightarrow> unit outcome \<times> hstate" where
  "callLogger lg lvl pl m s =
     (case meth lg lvl of
        Writes \<Rightarrow>
          (Done (), s\<lparr> log := log s @ [\<lparr> lc_logger = lid lg, lc_level = lvl,
                                           lc_payload = pl, lc_msg = m \<rparr>] \<rparr>)
      | Throws t \<Rightarrow> (Throw t, s)
      | NotAFunction \<Rightarrow> (Throw (TypeError (lvl @ '' is not a function'')), s))"

text \<open>The plugin state \<open>server.plugins.nipo\<close>, with \<open>server.info.id\<close>.\<close>

record nipo =
  responseLogger :: logger
  eventLogger :: logger
  tagLevels :: "string \<Rightarrow> int option"
  serverId :: string

subsection \<open>The request and its response\<close>

record responseinfo =
  rstatusCode :: int
  rerror :: val

record authinfo =
  mode :: val
  isAuthenticated :: bool
  isAuthorized :: bool
  credentials :: val
  strategy :: val

record routeinfo =
  settingsId :: val
  vhost :: val
  rpath :: string
  realmPlugin :: val
  reqProps :: "(string \<times> string list) list option"
  resProps :: "(string \<times> string list) list option"

text \<open>\<open>reach\<close> is \<open>Hoek.reach(request, path)\<close>, a lookup of a path of property names in
  the request; \<open>now\<close> is \<open>Date.now()\<close>. \<open>response\<close> is \<open>None\<close> for an aborted request
  (\<open>request.response\<close> is \<open>null\<close>).\<close>

record request =
  response :: "responseinfo option"
  infoId :: string
  remoteAddress :: string
  received :: int
  responded :: int
  completed :: int
  now :: int
  rmethod :: string
  pathname :: string
  search :: string
  auth :: authinfo
  route :: routeinfo
  paramsNull :: bool
  reach :: "string list \<Rightarrow> val"

definition errProps :: "heap \<Rightarrow> val \<Rightarrow> errfields option" where
  "errProps h v =
     (case v of JRef a \<Rightarrow> (if a < length h then err (h ! a) else None) | _ \<Rightarrow> None)"

text \<open>\<open>internals.logResponseError\<close>.\<close>

definition logResponseError :: "logger \<Rightarrow> responseinfo \<Rightarrow> string \<Rightarrow> hstate \<Rightarrow> unit outcome \<times> hstate" where
  "logResponseError lg resp ident s =
     (let error = rerror resp in
      if truthy error \<and> rstatusCode resp \<noteq> 500 \<and> isLevelEnabled lg ''trace'' then
        callLogger lg ''trace''
          [(''request'', FVal (JStr ident)),
           (''tags'', FArr [FVal (JStr ''request''), FVal (JStr ''response''), FVal (JStr ''error'')]),
           (''err'', FVal error)]
          ''request-internal'' s
      else (Done (), s))"

text \<open>\<open>internals.applyUserProps\<close>: \<open>obj[prop] = Utils.safeJsonObject(value)\<close> for each
  entry of the map whose path reaches a value other than \<open>undefined\<close> and \<open>null\<close>.
  Assigning an existing property keeps its position, a new one is added last.\<close>

fun fieldSet :: "(string \<times> field) list \<Rightarrow> string \<Rightarrow> field \<Rightarrow> (string \<times> field) list" where
  "fieldSet [] k v = [(k, v)]"
| "fieldSet ((k', v') # ps) k v = (if k' = k then (k, v) # ps else (k', v') # fieldSet ps k v)"

fun applyUserPropsLoop ::
    "request \<Rightarrow> (string \<times> field) list \<Rightarrow> (string \<times> string list) list \<Rightarrow> heap
      \<Rightarrow> ((string \<times> field) list outcome \<times> heap) option" where
  "applyUserPropsLoop rq ob [] h = Some (Done ob, h)"
| "applyUserPropsLoop rq ob ((prop, path) # rest) h =
     (let value = reach rq path in
      if value \<noteq> JUndefined \<and> value \<noteq> JNull then
        (case safeJson h value of
           None \<Rightarrow> None
         | Some (Throw e, h1) \<Rightarrow> Some (Throw e, h1)
         | Some (Done v, h1) \<Rightarrow> applyUserPropsLoop rq (fieldSet ob prop (FVal v)) rest h1)
      else applyUserPropsLoop rq ob rest h)"

definition applyUserProps ::
    "request \<Rightarrow> (string \<times> field) list \<Rightarrow> (string \<times> string list) list option \<Rightarrow> heap
      \<Rightarrow> ((string \<times> field) list outcome \<times> heap) option" where
  "applyUserProps rq ob m h =
     (case m of None \<Rightarrow> Some (Done ob, h) | Some entries \<Rightarrow> applyUserPropsLoop rq ob entries h)"


text \<open>Sequencing of steps that may throw: the state reached is kept when a step throws,
  and \<open>None\<close> (no result) is passed on.\<close>

definition andThen ::
    "('a outcome \<times> 's) option \<Rightarrow> ('a \<Rightarrow> 's \<Rightarrow> ('b outcome \<times> 's) option) \<Rightarrow> ('b outcome \<times> 's) option" where
  "andThen r f =
     (case r of
        None \<Rightarrow> None
      | Some (Throw e, s) \<Rightarrow> Some (Throw e, s)
      | Some (Done a, s) \<Rightarrow> f a s)"

definition onHeap :: "(heap \<Rightarrow> ('a outcome \<times> heap) option) \<Rightarrow> hstate \<Rightarrow> ('a outcome \<times> hstate) option" where
  "onHeap f s =
     (case f (heap s) of None \<Rightarrow> None | Some (r, h') \<Rightarrow> Some (r, s\<lparr> heap := h' \<rparr>))"

text \<open>
  String conversion, as a template literal and a string concatenation perform it. The
  conversion of an object runs its \<open>toString\<close>, which is code of the object: it is
  the parameter \<open>objStr\<close>, from the address of the object to the string, \<open>None\<close> when
  the conversion throws (as it does for an object with no prototype). An integer below
  \<open>10^21\<close> in magnitude is rendered by its decimal digits; from there on JavaScript
  uses the exponent notation of the nearest double, which is the parameter \<open>numStr\<close>.
\<close>

record strings =
  objStr :: "nat \<Rightarrow> string option"
  numStr :: "int \<Rightarrow> string"

definition toStr :: "strings \<Rightarrow> val \<Rightarrow> string outcome" where
  "toStr os v =
     (case (case v of
              JUndefined \<Rightarrow> Some ''undefined''
            | JNull \<Rightarrow> Some ''null''
            | JBool b \<Rightarrow> Some (if b then ''true'' else ''false'')
            | JNum n \<Rightarrow> Some (if \<bar>n\<bar> < 10 ^ 21 then show_int n else numStr os n)
            | JNaN \<Rightarrow> Some ''NaN''
            | JStr s \<Rightarrow> Some s
            | JBigInt n \<Rightarrow> Some (show_int n)
            | JRef a \<Rightarrow> objStr os a) of
        Some s \<Rightarrow> Done s
      | None \<Rightarrow> Throw (TypeError ''Cannot convert object to primitive value''))"

text \<open>The object literals \<open>req\<close> and \<open>route\<close> of \<open>internals.onResponseHandler\<close>;
  \<open>cred\<close> is the sanitized \<open>request.auth.credentials || undefined\<close>.\<close>

definition reqLiteral :: "request \<Rightarrow> val \<Rightarrow> (string \<times> field) list" where
  "reqLiteral rq cred =
     [(''id'', FVal (JStr (infoId rq))),
      (''method'', FVal (JStr (rmethod rq))),
      (''path'', FVal (JStr (pathname rq @ search rq))),
      (''clientIp'', FVal (JStr (remoteAddress rq))),
      (''auth'',
         if mode (auth rq) \<noteq> JNull then
           FObj [(''valid'', FVal (JBool (isAuthenticated (auth rq)))),
              (''access'', FVal (if isAuthenticated (auth rq)
                              then JBool (isAuthorized (auth rq)) else JUndefined)),
              (''credentials'', FVal cred),
              (''strategy'', FVal (if truthy (strategy (auth rq))
                                then strategy (auth rq) else JUndefined))]
         else FVal JUndefined)]"

definition routeLiteral :: "request \<Rightarrow> field" where
  "routeLiteral rq =
     (if \<not> paramsNull rq then
        FObj [(''id'', FVal (settingsId (route rq))),
           (''vhost'', FVal (vhost (route rq))),
           (''path'', FVal (JStr (rpath (route rq)))),
           (''realm'', FVal (realmPlugin (route rq)))]
      else FObj [])"

text \<open>The call \<open>Utils.safeJsonObject(request.auth.credentials || undefined)\<close> inside the
  \<open>req\<close> literal, made only when \<open>request.auth.mode !== null\<close>.\<close>

definition credentialsField :: "request \<Rightarrow> hstate \<Rightarrow> (val outcome \<times> hstate) option" where
  "credentialsField rq s =
     (if mode (auth rq) \<noteq> JNull then
        onHeap (\<lambda>h. safeJson h (if truthy (credentials (auth rq))
                                  then credentials (auth rq) else JUndefined)) s
      else Some (Done JUndefined, s))"

text \<open>
  What the handler reads of the response error, whatever value it is:
  \<open>error.constructor.name\<close> (\<open>None\<close> when \<open>error.constructor\<close> is \<open>undefined\<close>, so
  that reading \<open>.name\<close> throws), \<open>error.message\<close> and \<open>error.data\<close>. An \<open>Error\<close>
  has them in its fields; any other object has the name of its constructor and
  its own properties \<open>message\<close> and \<open>data\<close>; a primitive has the constructor of its
  wrapper and neither property.
\<close>

definition ctorNameOf :: "heap \<Rightarrow> val \<Rightarrow> string option" where
  "ctorNameOf h v =
     (case v of
        JRef a \<Rightarrow> (case err (h ! a) of Some ef \<Rightarrow> Some (ctorName ef) | None \<Rightarrow> ctor (h ! a))
      | JBool b \<Rightarrow> Some ''Boolean''
      | JNum n \<Rightarrow> Some ''Number''
      | JNaN \<Rightarrow> Some ''Number''
      | JStr s \<Rightarrow> Some ''String''
      | JBigInt n \<Rightarrow> Some ''BigInt''
      | _ \<Rightarrow> None)"

definition messageOf :: "heap \<Rightarrow> val \<Rightarrow> val" where
  "messageOf h v =
     (case v of
        JRef a \<Rightarrow> (case err (h ! a) of
                     Some ef \<Rightarrow> JStr (message ef)
                   | None \<Rightarrow> objectGet h a ''message'')
      | _ \<Rightarrow> JUndefined)"

definition dataOf :: "heap \<Rightarrow> val \<Rightarrow> val" where
  "dataOf h v =
     (case v of
        JRef a \<Rightarrow> (case err (h ! a) of
                     Some ef \<Rightarrow> edata ef
                   | None \<Rightarrow> objectGet h a ''data'')
      | _ \<Rightarrow> JUndefined)"

text \<open>The block \<open>if (error) { ... }\<close> of \<open>internals.onResponseHandler\<close>, from the
  object \<open>res\<close> as built so far to \<open>res\<close> with \<open>reason\<close> and \<open>data\<close>, and the call of
  \<open>logResponseError\<close>.\<close>

definition errorFields ::
    "strings \<Rightarrow> nipo \<Rightarrow> request \<Rightarrow> responseinfo \<Rightarrow> (string \<times> field) list \<Rightarrow> hstate
      \<Rightarrow> ((string \<times> field) list outcome \<times> hstate) option" where
  "errorFields os np rq resp res0 s =
     (let error = rerror resp in
      if truthy error then
        (case ctorNameOf (heap s) error of
           None \<Rightarrow>
             Some (Throw (TypeError ''Cannot read properties of undefined (reading name)''), s)
         | Some nm \<Rightarrow>
             (case toStr os (messageOf (heap s) error) of
                Throw e \<Rightarrow> Some (Throw e, s)
              | Done m \<Rightarrow>
                  let res1 = fieldSet res0 ''reason'' (FVal (JStr (nm @ '': '' @ m)));
                      data = dataOf (heap s) error
                  in
                  andThen
                    (if truthy data then
                       andThen (onHeap (\<lambda>h. safeJson h data) s)
                         (\<lambda>d s3. Some (Done (fieldSet res1 ''data'' (FVal d)), s3))
                     else Some (Done res1, s))
                    (\<lambda>res2 s4.
                       (case logResponseError (eventLogger np) resp (infoId rq) s4 of
                          (Throw e, s5) \<Rightarrow> Some (Throw e, s5)
                        | (Done u, s5) \<Rightarrow> Some (Done res2, s5)))))
      else Some (Done res0, s))"

text \<open>The level of the response line when the gate has set none:
  \<open>response.statusCode >= 400 ? (response.statusCode >= 500 ? 'error' : 'warn') : 'info'\<close>.\<close>

definition defaultLevel :: "int \<Rightarrow> string" where
  "defaultLevel st = (if st \<ge> 400 then (if st \<ge> 500 then ''error'' else ''warn'') else ''info'')"

text \<open>\<open>internals.onResponseHandler\<close>, from the construction of \<open>req\<close> to the end;
  \<open>logLevel\<close> is the variable of that name as the gate left it (\<open>None\<close> for
  \<open>undefined\<close>).\<close>

definition responseLine ::
    "strings \<Rightarrow> nipo \<Rightarrow> request \<Rightarrow> string option \<Rightarrow> hstate \<Rightarrow> (unit outcome \<times> hstate) option" where
  "responseLine os np rq logLevel s =
     andThen (credentialsField rq s)
       (\<lambda>cred s1.
     andThen (onHeap (applyUserProps rq (reqLiteral rq cred) (reqProps (route rq))) s1)
       (\<lambda>req s2.
     (case response rq of
        Some resp \<Rightarrow>
          let respondedAt =
                (if responded rq \<noteq> 0 then responded rq
                 else if completed rq \<noteq> 0 then completed rq else now rq);
              res0 = [(''statusCode'', FVal (JNum (rstatusCode resp))),
                      (''delay'', FVal (JNum (respondedAt - received rq)))]
          in
          andThen (errorFields os np rq resp res0 s2)
            (\<lambda>res3 s6.
          andThen (onHeap (applyUserProps rq res3 (resProps (route rq))) s6)
            (\<lambda>res s7.
               let lvl = (case logLevel of Some l \<Rightarrow> l | None \<Rightarrow> defaultLevel (rstatusCode resp))
               in Some (callLogger (responseLogger np) lvl
                          [(''req'', FObj req), (''route'', routeLiteral rq), (''res'', FObj res)]
                          ''request-response'' s7)))
      | None \<Rightarrow>
          Some (callLogger (responseLogger np) ''debug''
                  [(''req'', FObj req), (''route'', routeLiteral rq)]
                  ''request-aborted'' s2))))"

text \<open>\<open>internals.onResponseHandler\<close>. The gate \<open>logResponse\<close> is user code: it returns
  a value or throws. A string result is stored in \<open>logLevel\<close> only when it is truthy,
  since a falsy result has returned before.\<close>

definition onResponseHandler ::
    "strings \<Rightarrow> (request \<Rightarrow> val outcome) option \<Rightarrow> nipo \<Rightarrow> request \<Rightarrow> hstate
      \<Rightarrow> (unit outcome \<times> hstate) option" where
  "onResponseHandler os logResponse np rq s =
     (case (response rq, logResponse) of
        (Some resp, Some gate) \<Rightarrow>
          (case gate rq of
             Throw e \<Rightarrow> Some (Throw e, s)
           | Done result \<Rightarrow>
               if \<not> truthy result then
                 Some (logResponseError (eventLogger np) resp (infoId rq) s)
               else
                 (case result of
                    JStr l \<Rightarrow> responseLine os np rq (Some l) s
                  | _ \<Rightarrow> responseLine os np rq None s))
      | _ \<Rightarrow> responseLine os np rq None s)"

subsection \<open>The event translators\<close>

record event =
  evRequest :: string
  evTags :: "string list"
  evData :: val
  evError :: val

definition tagsField :: "string list \<Rightarrow> field" where
  "tagsField tags = FArr (map (\<lambda>t. FVal (JStr t)) tags)"

text \<open>\<open>internals.onRequestErrorHandler\<close>, bound to the event logger.\<close>

definition onRequestErrorHandler :: "nipo \<Rightarrow> event \<Rightarrow> bool \<Rightarrow> hstate \<Rightarrow> (unit outcome \<times> hstate) option" where
  "onRequestErrorHandler np ev implementation s =
     (let level = (if implementation then ''fatal'' else ''error'') in
      Some (callLogger (eventLogger np) level
              [(''request'', FVal (JStr (evRequest ev))),
               (''tags'', tagsField (evTags ev)),
               (''err'', FVal (evError ev))]
              ''request-error'' s))"

text \<open>\<open>internals.onRequestAppHandler\<close>, bound to the event logger: the level is looked
  up from the tags. The arguments of the call are evaluated before the call is made,
  so the sanitizer has run when \<open>this[undefined]\<close> turns out not to be a function.\<close>

definition onRequestAppHandler :: "nipo \<Rightarrow> event \<Rightarrow> hstate \<Rightarrow> (unit outcome \<times> hstate) option" where
  "onRequestAppHandler np ev s =
     (let method = lookupLevel (evTags ev) ''info'' (tagLevels np) in
      andThen (onHeap (\<lambda>h. safeJson h (evData ev)) s)
        (\<lambda>d s1.
           (case method of
              None \<Rightarrow> Some (Throw (TypeError ''this[method] is not a function''), s1)
            | Some lvl \<Rightarrow>
                Some (callLogger (eventLogger np) lvl
                        [(''request'', FVal (JStr (evRequest ev))),
                         (''tags'', tagsField (evTags ev)),
                         (''data'', FVal d),
                         (''err'', FVal (evError ev))]
                        ''request-app'' s1))))"

subsection \<open>The fault isolation wrapper\<close>

text \<open>What the \<open>catch\<close> block reads of \<open>new Error(message)\<close>: the name of its
  constructor, its message and its stack, of which only the first line is kept.\<close>

definition newError :: "string \<Rightarrow> string option \<times> val \<times> val" where
  "newError msg = (Some ''Error'', JStr msg, JStr (''Error: '' @ msg))"

text \<open>The function returned by \<open>safeHandler(handler, ...boundArgs)\<close>, applied to its
  arguments: \<open>boundFn\<close> is the bound translator applied to them. In the \<open>catch\<close> block,
  \<open>err || new Error(...)\<close> replaces a falsy thrown value, reading
  \<open>err.constructor.name\<close> is a \<open>TypeError\<close> when the value has no constructor, and
  \<open>eventLogger.fatal\<close> is a call like any other.\<close>

definition safeHandler ::
    "string \<Rightarrow> nipo \<Rightarrow> (hstate \<Rightarrow> (unit outcome \<times> hstate) option) \<Rightarrow> hstate
      \<Rightarrow> (unit outcome \<times> hstate) option" where
  "safeHandler handler np boundFn s =
     (case boundFn s of
        None \<Rightarrow> None
      | Some (Done r, s1) \<Rightarrow> Some (Done r, s1)
      | Some (Throw err0, s1) \<Rightarrow>
          (let (c, m, st) =
                 (case err0 of
                    Falsy \<Rightarrow> newError (''Unknown throw during: '' @ handler)
                  | Truthy c0 m0 st0 \<Rightarrow> (c0, m0, st0))
           in case c of
                None \<Rightarrow>
                  Some (Throw (TypeError ''Cannot read properties of undefined (reading name)''), s1)
              | Some nm \<Rightarrow>
                  Some (callLogger (eventLogger np) ''fatal''
                          [(''server'', FVal (JStr (serverId np))),
                           (''type'', FVal (JStr nm)),
                           (''message'', FVal m),
                           (''stack'', FVal st)]
                          ''nipo-error'' s1)))"

subsection \<open>Subscriptions that follow the threshold\<close>

text \<open>
  \<open>server.events\<close> is the list of subscriptions, each an event name, a channel and a
  handler. \<open>on(criteria, handler)\<close> adds a subscription; \<open>removeListener(name, handler)\<close>
  removes every subscription of that handler to the event of that name. A handler is a
  function object, told from any other by its identity: \<open>Closure n\<close> is the \<open>n\<close>-th
  function object that \<open>safeHandler\<close> has created. \<open>handlers\<close> is the table
  \<open>internals.handlers\<close>, which belongs to the module, not to a server.
\<close>

datatype handler = Closure nat

type_synonym subscription = "string \<times> string \<times> handler"

record handlers =
  requestInternal :: handler
  logInternal :: handler
  requestApp :: handler
  logApp :: handler

definition on_event :: "subscription list \<Rightarrow> string \<times> string \<Rightarrow> handler \<Rightarrow> subscription list" where
  "on_event evs ev hdl = evs @ [(fst ev, snd ev, hdl)]"

definition removeListener :: "subscription list \<Rightarrow> string \<Rightarrow> handler \<Rightarrow> subscription list" where
  "removeListener evs nm hdl = filter (\<lambda>(n, c, h). \<not> (n = nm \<and> h = hdl)) evs"

text \<open>\<open>internals.onLevelChange\<close>, bound to the event logger, with its two closures.
  \<open>hs\<close> is the table \<open>internals.handlers\<close> as the call finds it, \<open>evs\<close> the
  subscriptions of the server the function was bound to, \<open>val\<close> the new threshold and
  \<open>prevVal\<close> the previous one, \<open>None\<close> for \<open>undefined\<close>. The result of \<open>levelChanged\<close>
  is \<open>None\<close> for \<open>undefined\<close>. A reference level missing from the table would compare
  as \<open>undefined >= val\<close>, which is false.\<close>

definition levelChanged :: "enat \<Rightarrow> enat option \<Rightarrow> string \<Rightarrow> bool option" where
  "levelChanged val prevVal ref =
     (let refVal = map_of pinoValues ref;
          isActive = (case refVal of Some r \<Rightarrow> enat r \<ge> val | None \<Rightarrow> False);
          isPrevActive =
            (case prevVal of
               None \<Rightarrow> False
             | Some p \<Rightarrow> (case refVal of Some r \<Rightarrow> enat r \<ge> p | None \<Rightarrow> False))
      in if isActive = isPrevActive then None else Some isActive)"

definition update ::
    "subscription list \<Rightarrow> enat \<Rightarrow> enat option \<Rightarrow> string \<Rightarrow> ((string \<times> string) \<times> handler) list
      \<Rightarrow> subscription list" where
  "update evs val prevVal ref handlers =
     (case levelChanged val prevVal ref of
        None \<Rightarrow> evs
      | Some active \<Rightarrow>
          fold (\<lambda>(ev, hdl) es. if active then on_event es ev hdl else removeListener es (fst ev) hdl)
            handlers evs)"

definition onLevelChange ::
    "handlers \<Rightarrow> subscription list \<Rightarrow> enat \<Rightarrow> enat option \<Rightarrow> subscription list" where
  "onLevelChange hs evs val prevVal =
     (let evs1 = update evs val prevVal ''debug''
                   [((''request'', ''internal''), requestInternal hs),
                    ((''log'', ''internal''), logInternal hs)]
      in update evs1 val prevVal ''info''
           [((''request'', ''app''), requestApp hs),
            ((''log'', ''app''), logApp hs)])"

text \<open>
  The state of the module: the table \<open>internals.handlers\<close>, \<open>None\<close> while it is
  \<open>undefined\<close>, and the number of function objects created so far.
  \<open>internals.register\<close>, as far as the subscriptions go: it subscribes two new
  handlers to \<open>response\<close> and to the request channel \<open>error\<close>, replaces the table by
  four new handlers, calls \<open>onLevelChange\<close> with the threshold of the event logger and
  no previous value, and subscribes two new handlers to \<open>start\<close> and \<open>stop\<close>. A
  subscription by the name of the event alone has the empty channel here.
\<close>

record plugin =
  table :: "handlers option"
  closures :: nat

definition register :: "plugin \<Rightarrow> subscription list \<Rightarrow> enat \<Rightarrow> plugin \<times> subscription list" where
  "register pl evs threshold =
     (let c = closures pl;
          evs1 = on_event evs (''response'', []) (Closure c);
          evs2 = on_event evs1 (''request'', ''error'') (Closure (c + 1));
          hs = \<lparr> requestInternal = Closure (c + 2), logInternal = Closure (c + 3),
                 requestApp = Closure (c + 4), logApp = Closure (c + 5) \<rparr>;
          evs3 = onLevelChange hs evs2 threshold None;
          evs4 = on_event evs3 (''start'', []) (Closure (c + 6));
          evs5 = on_event evs4 (''stop'', []) (Closure (c + 7))
      in (\<lparr> table = Some hs, closures = c + 8 \<rparr>, evs5))"

text \<open>The calls of \<open>onLevelChange\<close> after the first one, made by the logger's
  \<open>level-change\<close> event: each with the table \<open>internals.handlers\<close> as it is at that
  time, the new threshold, and the threshold before as the previous one.\<close>

fun levelChanges ::
    "subscription list \<Rightarrow> enat \<Rightarrow> (handlers \<times> enat) list \<Rightarrow> subscription list" where
  "levelChanges evs cur [] = evs"
| "levelChanges evs cur ((hs, v) # calls) = levelChanges (onLevelChange hs evs v (Some cur)) v calls"

section \<open>The error serializer (\<open>lib/serialize.js\<close>)\<close>

definition isError :: "heap \<Rightarrow> val \<Rightarrow> bool" where
  "isError h v = (errProps h v \<noteq> None)"

text \<open>\<open>internals.errorName\<close>, for an \<open>Error\<close> object with the fields \<open>e\<close>.
  \<open>Error.prototype.name\<close> is \<open>'Error'\<close>; \<open>base\<close> is \<open>None\<close> while it is
  \<open>undefined\<close>, and the empty string is falsy.\<close>

definition errorName :: "heap \<Rightarrow> errfields \<Rightarrow> string" where
  "errorName h e =
     (if isBoom e then
        (let base =
               (if ctorIsBoom e then
                  (if isError h (cause e) \<and>
                      map_option ename (errProps h (cause e)) \<noteq> Some ''Error''
                   then map_option ename (errProps h (cause e))
                   else if ename e \<noteq> ctorName e then Some (ename e)
                   else None)
                else Some (ename e))
         in case base of
              Some b \<Rightarrow> (if b \<noteq> [] then ''Boom('' @ b @ '')'' else ''Boom'')
            | None \<Rightarrow> ''Boom'')
      else ename e)"

text \<open>\<open>internals.errorCause\<close>.\<close>

definition errorCause :: "heap \<Rightarrow> errfields \<Rightarrow> val" where
  "errorCause h e =
     (let c = cause e in
      if c = JUndefined \<and> isBoom e \<and> isError h (edata e) then edata e else c)"

text \<open>The record built by \<open>errSerializer\<close>; \<open>data\<close> and \<open>stack\<close> are absent keys when
  \<open>None\<close>.\<close>

record serialized =
  stype :: string
  smessage :: string
  scode :: val
  sdata :: "val option"
  sstack :: "val option"

text \<open>\<open>serialized.stack += x\<close> when \<open>withStack\<close> is truthy.\<close>

definition stackAppend :: "strings \<Rightarrow> serialized \<Rightarrow> bool \<Rightarrow> string outcome \<Rightarrow> serialized outcome" where
  "stackAppend os sz withStack x =
     (if withStack then
        (case x of
           Throw e \<Rightarrow> Throw e
         | Done xs \<Rightarrow>
             (case toStr os (case sstack sz of Some v \<Rightarrow> v | None \<Rightarrow> JUndefined) of
                Throw e \<Rightarrow> Throw e
              | Done s \<Rightarrow> Done (sz\<lparr> sstack := Some (JStr (s @ xs)) \<rparr>)))
      else Done sz)"

text \<open>\<open>error.message ?? error\<close>, converted to a string by the concatenation it stands
  in. Reading a property of \<open>null\<close> throws; a primitive has no \<open>message\<close>; an object that
  is no \<open>Error\<close> has the \<open>message\<close> of its own properties.\<close>

definition messageOrSelf :: "strings \<Rightarrow> heap \<Rightarrow> val \<Rightarrow> string outcome" where
  "messageOrSelf os h error =
     (case error of
        JNull \<Rightarrow> Throw (TypeError ''Cannot read properties of null (reading message)'')
      | JUndefined \<Rightarrow> Throw (TypeError ''Cannot read properties of undefined (reading message)'')
      | JRef a \<Rightarrow>
          (case errProps h error of
             Some ef \<Rightarrow> Done (message ef)
           | None \<Rightarrow>
               (let m = (if a < length h then objectGet h a ''message'' else JUndefined)
                in if m = JUndefined \<or> m = JNull then toStr os error else toStr os m))
      | _ \<Rightarrow> toStr os error)"

definition stackOrUnknown :: "strings \<Rightarrow> errfields \<Rightarrow> string outcome" where
  "stackOrUnknown os ef =
     (if stack ef = JUndefined \<or> stack ef = JNull then Done ''<unknown>''
      else toStr os (stack ef))"

definition unseen :: "heap \<Rightarrow> val list \<Rightarrow> nat set" where
  "unseen h seen = {a. a < length h \<and> JRef a \<notin> set seen}"

lemma unseen_less:
  assumes "a < length h" and "JRef a \<notin> set seen"
  shows "card (unseen h (seen @ [JRef a])) < card (unseen h seen)"
proof -
  have fin: "finite (unseen h seen)"
    by (rule finite_subset [of _ "{..<length h}"]) (auto simp: unseen_def)
  have "unseen h (seen @ [JRef a]) \<subset> unseen h seen"
    using assms by (auto simp: unseen_def)
  then show ?thesis
    using fin by (rule psubset_card_mono [rotated])
qed

lemma errProps_SomeD: "errProps h v = Some ef \<Longrightarrow> \<exists>a. v = JRef a \<and> a < length h"
  by (auto simp: errProps_def split: val.splits if_splits)

text \<open>\<open>internals.addCause\<close>. The recursion ends because each call on an \<open>Error\<close> adds
  it to \<open>seen\<close>, and the heap has finitely many objects.\<close>

function addCause ::
    "strings \<Rightarrow> heap \<Rightarrow> serialized \<Rightarrow> val \<Rightarrow> bool \<Rightarrow> val list \<Rightarrow> serialized outcome" where
  "addCause os h sz error withStack seen =
     (if error = JUndefined then Done sz
      else if error \<in> set seen then
        (case stackAppend os sz withStack
                (Done (CHR 0x0A # ''causes have become circular...'')) of
           Throw e \<Rightarrow> Throw e
         | Done sz1 \<Rightarrow> Done (sz1\<lparr> smessage := smessage sz1 @ '': ...'' \<rparr>))
      else
        (case messageOrSelf os h error of
           Throw e \<Rightarrow> Throw e
         | Done m \<Rightarrow>
             (let sz1 = sz\<lparr> smessage := smessage sz @ '': '' @ m \<rparr> in
              case errProps h error of
                None \<Rightarrow> Done sz1
              | Some ef \<Rightarrow>
                  (case stackAppend os sz1 withStack
                          (case stackOrUnknown os ef of
                             Throw e \<Rightarrow> Throw e
                           | Done st \<Rightarrow> Done (CHR 0x0A # ''caused by: '' @ st)) of
                     Throw e \<Rightarrow> Throw e
                   | Done sz2 \<Rightarrow>
                       addCause os h sz2 (errorCause h ef) withStack (seen @ [error])))))"
  by pat_completeness auto
termination
  by (relation "measure (\<lambda>(os, h, sz, error, withStack, seen). card (unseen h seen))")
     (auto dest!: errProps_SomeD intro: unseen_less)

declare addCause.simps [simp del]

text \<open>The number of calls of \<open>addCause\<close> that a call makes, itself included: the same
  recursion, counting.\<close>

function addCauseCalls ::
    "strings \<Rightarrow> heap \<Rightarrow> serialized \<Rightarrow> val \<Rightarrow> bool \<Rightarrow> val list \<Rightarrow> nat" where
  "addCauseCalls os h sz error withStack seen =
     (if error = JUndefined then 1
      else if error \<in> set seen then 1
      else
        (case messageOrSelf os h error of
           Throw e \<Rightarrow> 1
         | Done m \<Rightarrow>
             (let sz1 = sz\<lparr> smessage := smessage sz @ '': '' @ m \<rparr> in
              case errProps h error of
                None \<Rightarrow> 1
              | Some ef \<Rightarrow>
                  (case stackAppend os sz1 withStack
                          (case stackOrUnknown os ef of
                             Throw e \<Rightarrow> Throw e
                           | Done st \<Rightarrow> Done (CHR 0x0A # ''caused by: '' @ st)) of
                     Throw e \<Rightarrow> 1
                   | Done sz2 \<Rightarrow>
                       Suc (addCauseCalls os h sz2 (errorCause h ef) withStack (seen @ [error]))))))"
  by pat_completeness auto
termination
  by (relation "measure (\<lambda>(os, h, sz, error, withStack, seen). card (unseen h seen))")
     (auto dest!: errProps_SomeD intro: unseen_less)

declare addCauseCalls.simps [simp del]

text \<open>\<open>internals.errSerializer\<close>: a value that is no \<open>Error\<close> is returned as it is.\<close>

datatype serres = Passthrough val | Record serialized

definition errSerializer ::
    "strings \<Rightarrow> heap \<Rightarrow> val \<Rightarrow> bool \<Rightarrow> (serres outcome \<times> heap) option" where
  "errSerializer os h error withStack =
     (case errProps h error of
        None \<Rightarrow> Some (Done (Passthrough error), h)
      | Some ef \<Rightarrow>
          (let msg = message ef;
               c = errorCause h ef;
               type = errorName h ef;
               data = (if isBoom ef \<and> strictEq (edata ef) c then JUndefined else edata ef);
               cd = (if isBoom ef \<and> code ef = JUndefined then statusCode ef else code ef)
           in
           andThen (safeJson h cd)
             (\<lambda>cd1 h1.
           andThen
             (if data \<noteq> JNull \<and> data \<noteq> JUndefined then
                andThen (safeJson h1 data) (\<lambda>d hd. Some (Done (Some d), hd))
              else Some (Done None, h1))
             (\<lambda>d1 h2.
           andThen
             (if withStack then
                andThen (safeJson h2 (stack ef)) (\<lambda>st hs. Some (Done (Some st), hs))
              else Some (Done None, h2))
             (\<lambda>st1 h3.
                (let res = \<lparr> stype = type, smessage = msg, scode = cd1,
                             sdata = d1, sstack = st1 \<rparr>;
                     withStack1 = (withStack \<and> (case stack ef of JStr s \<Rightarrow> True | _ \<Rightarrow> False))
                 in case addCause os h3 res c withStack1 [error] of
                      Throw e \<Rightarrow> Some (Throw e, h3)
                    | Done r \<Rightarrow> Some (Done (Record r), h3)))))))"


section \<open>Level resolution\<close>

text \<open>The numeric values that the map gives to the tags of a sequence, and what makes a
  map a tag-to-level map: each of its values is the value of a level.\<close>

definition mappedLevels :: "string list \<Rightarrow> (string \<Rightarrow> int option) \<Rightarrow> int set" where
  "mappedLevels tags m = {v. \<exists>t. t \<in> set tags \<and> m t = Some v}"

definition levelMap :: "(string \<Rightarrow> int option) \<Rightarrow> bool" where
  "levelMap m = (\<forall>t v. m t = Some v \<longrightarrow> pinoLabels v \<noteq> None)"

lemma finite_mappedLevels: "finite (mappedLevels tags m)"
proof -
  have "mappedLevels tags m \<subseteq> (\<lambda>t. the (m t)) ` set tags"
    by (force simp: mappedLevels_def)
  then show ?thesis by (rule finite_subset) simp
qed

lemma mappedLevels_Cons:
  "mappedLevels (tag # tags) m =
     (case m tag of None \<Rightarrow> mappedLevels tags m | Some v \<Rightarrow> insert v (mappedLevels tags m))"
  by (auto simp: mappedLevels_def split: option.splits)

lemma lookupLoop_max:
  "lookupLoop tags m level = Max (insert level (mappedLevels tags m))"
proof (induction tags arbitrary: level)
  case Nil
  then show ?case by (simp add: mappedLevels_def)
next
  case (Cons tag tags)
  note fin = finite_mappedLevels [of tags m]
  show ?case
  proof (cases "m tag")
    case None
    with Cons show ?thesis by (simp add: mappedLevels_Cons)
  next
    case (Some x)
    have "Max (insert level (insert x (mappedLevels tags m)))
            = max level (Max (insert x (mappedLevels tags m)))"
      using fin by (subst Max_insert) auto
    also have "\<dots> = Max (insert (max level x) (mappedLevels tags m))"
      using fin by (cases "mappedLevels tags m = {}") (auto simp: max.assoc)
    finally have *: "Max (insert level (insert x (mappedLevels tags m)))
            = Max (insert (max level x) (mappedLevels tags m))" .
    show ?thesis
      using Some Cons.IH [of x] Cons.IH [of level] *
      by (simp add: mappedLevels_Cons max_def split: if_splits)
  qed
qed

lemma pinoLabels_values:
  "map_of pinoValues l = Some v \<Longrightarrow> pinoLabels (int v) = Some l"
  by (auto simp: pinoValues_def pinoLabels_def split: if_splits)

lemma pinoLabels_inv:
  "pinoLabels i = Some l \<Longrightarrow> map_option int (map_of pinoValues l) = Some i"
  by (auto simp: pinoValues_def pinoLabels_def split: if_splits)

lemma pinoLabels_pos: "pinoLabels v \<noteq> None \<Longrightarrow> v \<ge> 10"
  by (auto simp: pinoValues_def pinoLabels_def split: if_splits)

text \<open>The map that \<open>register\<close> builds is a tag-to-level map, whatever the overrides.\<close>

lemma prepareLevelMap_levelMap: "levelMap (prepareLevelMap overrides)"
proof -
  have base: "levelMap (map_option int \<circ> map_of pinoValues)"
    by (auto simp: levelMap_def dest: pinoLabels_values)
  have step: "levelMap m \<Longrightarrow>
      levelMap (fold (\<lambda>(key, lvl) m. m(key := map_option int (map_of pinoValues lvl))) ovs m)"
    for m ovs
  proof (induction ovs arbitrary: m)
    case Nil
    then show ?case by simp
  next
    case (Cons a ovs)
    obtain key lvl where a: "a = (key, lvl)" by (cases a)
    have "levelMap (m(key := map_option int (map_of pinoValues lvl)))"
      using Cons.prems by (auto simp: levelMap_def dest: pinoLabels_values)
    from Cons.IH [OF this] show ?case by (simp add: a)
  qed
  show ?thesis unfolding prepareLevelMap_def by (rule step [OF base])
qed

text \<open>
  Claim C3. For every tag sequence, default level and tag-to-level map,
  \<open>lookupLevel\<close> returns the default when no tag of the sequence is a key of the map
  (in particular for the empty sequence), and otherwise the name of the level whose
  numeric value is the greatest of the values mapped to the tags that are keys; tags
  that are not keys contribute nothing and raise no error.
\<close>

theorem lookupLevel_most_severe:
  assumes "levelMap m"
  shows "lookupLevel tags d m =
           (if mappedLevels tags m = {} then Some d
            else pinoLabels (Max (mappedLevels tags m)))
         \<and> (mappedLevels tags m \<noteq> {} \<longrightarrow>
              (\<exists>l. lookupLevel tags d m = Some l \<and>
                   map_option int (map_of pinoValues l) = Some (Max (mappedLevels tags m))))"
proof -
  note fin = finite_mappedLevels [of tags m]
  have pos: "v \<ge> 10" if "v \<in> mappedLevels tags m" for v
    using that assms pinoLabels_pos by (auto simp: mappedLevels_def levelMap_def)
  have 1: "lookupLevel tags d m =
           (if mappedLevels tags m = {} then Some d
            else pinoLabels (Max (mappedLevels tags m)))"
  proof (cases "mappedLevels tags m = {}")
    case True
    then show ?thesis by (simp add: lookupLevel_def lookupLoop_max)
  next
    case False
    then have "Max (mappedLevels tags m) \<in> mappedLevels tags m"
      using fin by (rule_tac Max_in)
    then have "Max (mappedLevels tags m) \<ge> 10" by (rule pos)
    moreover have "Max (insert (- 1) (mappedLevels tags m)) = max (- 1) (Max (mappedLevels tags m))"
      using fin False by simp
    ultimately show ?thesis
      using False by (simp add: lookupLevel_def lookupLoop_max Let_def)
  qed
  have 2: "\<exists>l. lookupLevel tags d m = Some l \<and>
               map_option int (map_of pinoValues l) = Some (Max (mappedLevels tags m))"
    if ne: "mappedLevels tags m \<noteq> {}"
  proof -
    have "Max (mappedLevels tags m) \<in> mappedLevels tags m"
      using fin ne by (rule Max_in)
    then obtain l where "pinoLabels (Max (mappedLevels tags m)) = Some l"
      using assms by (auto simp: mappedLevels_def levelMap_def)
    then show ?thesis using 1 ne pinoLabels_inv by auto
  qed
  from 1 2 show ?thesis by blast
qed

lemma mappedLevels_Nil: "mappedLevels [] m = {}"
  by (simp add: mappedLevels_def)

text \<open>The scenario of the spec: a server event tagged \<open>['my', 'app']\<close> with the override
  \<open>my -> warn\<close> is logged at \<open>warn\<close>; with no matching tag, at the default.\<close>

theorem lookupLevel_most_severe_witness:
  "levelMap (prepareLevelMap [(''my'', ''warn'')])
   \<and> mappedLevels [''my'', ''app''] (prepareLevelMap [(''my'', ''warn'')]) = {40}
   \<and> lookupLevel [''my'', ''app''] ''info'' (prepareLevelMap [(''my'', ''warn'')]) = Some ''warn''
   \<and> lookupLevel [''app''] ''info'' (prepareLevelMap [(''my'', ''warn'')]) = Some ''info''"
proof -
  let ?m = "prepareLevelMap [(''my'', ''warn'')]"
  have m1: "?m ''my'' = Some 40"
    by (simp add: prepareLevelMap_def pinoValues_def)
  have m2: "?m ''app'' = None"
    by (simp add: prepareLevelMap_def pinoValues_def)
  have lm: "levelMap ?m" by (rule prepareLevelMap_levelMap)
  have s1: "mappedLevels [''my'', ''app''] ?m = {40}"
    by (simp add: mappedLevels_Cons mappedLevels_Nil m1 m2)
  have s2: "mappedLevels [''app''] ?m = {}"
    by (simp add: mappedLevels_Cons mappedLevels_Nil m2)
  have l40: "pinoLabels 40 = Some ''warn''"
    by (simp add: pinoLabels_def pinoValues_def)
  have a: "lookupLevel [''my'', ''app''] ''info'' ?m = Some ''warn''"
    using lookupLevel_most_severe [OF lm, of "[''my'', ''app'']" "''info''"]
    by (simp only: s1 l40 Max_singleton) simp
  have b: "lookupLevel [''app''] ''info'' ?m = Some ''info''"
    using lookupLevel_most_severe [OF lm, of "[''app'']" "''info''"]
    by (simp only: s2) simp
  from lm s1 a b show ?thesis by blast
qed

section \<open>Subscriptions follow the threshold\<close>

text \<open>
  A group is active at a threshold when the numeric value of its reference level is at
  least the threshold. The tracked subscriptions of a table of handlers are those of
  the debug group (request and log, channel internal) and of the info group (request
  and log, channel app), each with its reference level. The subscriptions follow a
  threshold when each tracked subscription is present exactly once if its group is
  active and absent if not. The handlers of a table are apart when the two handlers
  subscribed to the same event are different function objects.
\<close>

definition groupActive :: "string \<Rightarrow> enat \<Rightarrow> bool" where
  "groupActive ref v = (case map_of pinoValues ref of Some r \<Rightarrow> enat r \<ge> v | None \<Rightarrow> False)"

definition tracked :: "handlers \<Rightarrow> (string \<times> subscription) list" where
  "tracked hs =
     [(''debug'', (''request'', ''internal'', requestInternal hs)),
      (''debug'', (''log'', ''internal'', logInternal hs)),
      (''info'', (''request'', ''app'', requestApp hs)),
      (''info'', (''log'', ''app'', logApp hs))]"

definition follows :: "handlers \<Rightarrow> subscription list \<Rightarrow> enat \<Rightarrow> bool" where
  "follows hs evs v =
     (\<forall>(ref, s) \<in> set (tracked hs). count_list evs s = (if groupActive ref v then 1 else 0))"

definition unsubscribed :: "handlers \<Rightarrow> subscription list \<Rightarrow> bool" where
  "unsubscribed hs evs = (\<forall>(ref, s) \<in> set (tracked hs). count_list evs s = 0)"

definition apart :: "handlers \<Rightarrow> bool" where
  "apart hs = (requestInternal hs \<noteq> requestApp hs \<and> logInternal hs \<noteq> logApp hs)"

lemma count_on_event:
  "count_list (on_event evs ev h) s = count_list evs s + (if s = (fst ev, snd ev, h) then 1 else 0)"
  by (simp add: on_event_def)

lemma count_removeListener:
  "count_list (removeListener evs nm h) s =
     (if fst s = nm \<and> snd (snd s) = h then 0 else count_list evs s)"
  by (induction evs) (auto simp: removeListener_def)

lemma levelChanged_None:
  "levelChanged v prev ref = None \<longleftrightarrow>
     (groupActive ref v \<longleftrightarrow> (case prev of None \<Rightarrow> False | Some p \<Rightarrow> groupActive ref p))"
  by (auto simp: levelChanged_def groupActive_def Let_def split: option.splits)

lemma levelChanged_Some:
  "levelChanged v prev ref = Some b \<Longrightarrow> b = groupActive ref v"
  by (auto simp: levelChanged_def groupActive_def Let_def split: option.splits if_splits)

lemma count_fold_on:
  "count_list (fold (\<lambda>(ev, h) es. on_event es ev h) hs evs) s =
     count_list evs s + count_list (map (\<lambda>(ev, h). (fst ev, snd ev, h)) hs) s"
  by (induction hs arbitrary: evs) (auto simp: count_on_event)

lemma count_fold_remove:
  "count_list (fold (\<lambda>(ev, h) es. removeListener es (fst ev) h) hs evs) s =
     (if \<exists>(ev, h) \<in> set hs. fst s = fst ev \<and> snd (snd s) = h then 0 else count_list evs s)"
  by (induction hs arbitrary: evs) (auto simp: count_removeListener split: if_splits)

lemma update_unchanged:
  "levelChanged v prev ref = None \<Longrightarrow> update evs v prev ref hs = evs"
  by (simp add: update_def)

lemma count_update:
  "count_list (update evs v prev ref hs) s =
     (case levelChanged v prev ref of
        None \<Rightarrow> count_list evs s
      | Some True \<Rightarrow> count_list evs s + count_list (map (\<lambda>(ev, h). (fst ev, snd ev, h)) hs) s
      | Some False \<Rightarrow>
          (if \<exists>(ev, h) \<in> set hs. fst s = fst ev \<and> snd (snd s) = h then 0 else count_list evs s))"
proof (cases "levelChanged v prev ref")
  case None
  then show ?thesis by (simp add: update_def)
next
  case (Some b)
  show ?thesis
  proof (cases b)
    case True
    have "(\<lambda>(ev, hdl) es. if True then on_event es ev hdl else removeListener es (fst ev) hdl)
            = (\<lambda>(ev, h) es. on_event es ev h)" by (auto simp: fun_eq_iff)
    then show ?thesis using Some True by (simp add: update_def count_fold_on)
  next
    case False
    have "(\<lambda>(ev, hdl) es. if False then on_event es ev hdl else removeListener es (fst ev) hdl)
            = (\<lambda>(ev, h) es. removeListener es (fst ev) h)" by (auto simp: fun_eq_iff)
    then show ?thesis using Some False by (simp add: update_def count_fold_remove)
  qed
qed

lemma ref_debug: "map_of pinoValues ''debug'' = Some 20"
  by (simp add: pinoValues_def)

lemma ref_info: "map_of pinoValues ''info'' = Some 30"
  by (simp add: pinoValues_def)

lemma follows_iff:
  "follows hs evs v \<longleftrightarrow>
     count_list evs (''request'', ''internal'', requestInternal hs) = (if groupActive ''debug'' v then 1 else 0) \<and>
     count_list evs (''log'', ''internal'', logInternal hs) = (if groupActive ''debug'' v then 1 else 0) \<and>
     count_list evs (''request'', ''app'', requestApp hs) = (if groupActive ''info'' v then 1 else 0) \<and>
     count_list evs (''log'', ''app'', logApp hs) = (if groupActive ''info'' v then 1 else 0)"
  by (simp add: follows_def tracked_def)

lemma unsubscribed_iff:
  "unsubscribed hs evs \<longleftrightarrow>
     count_list evs (''request'', ''internal'', requestInternal hs) = 0 \<and>
     count_list evs (''log'', ''internal'', logInternal hs) = 0 \<and>
     count_list evs (''request'', ''app'', requestApp hs) = 0 \<and>
     count_list evs (''log'', ''app'', logApp hs) = 0"
  by (simp add: unsubscribed_def tracked_def)

lemma onLevelChange_first:
  assumes "unsubscribed hs evs"
  shows "follows hs (onLevelChange hs evs v None) v"
proof -
  have d: "levelChanged v None ''debug'' = (if groupActive ''debug'' v then Some True else None)"
    by (auto simp: levelChanged_def groupActive_def Let_def split: option.splits)
  have i: "levelChanged v None ''info'' = (if groupActive ''info'' v then Some True else None)"
    by (auto simp: levelChanged_def groupActive_def Let_def split: option.splits)
  show ?thesis
    using assms unfolding follows_iff unsubscribed_iff onLevelChange_def Let_def
    by (simp add: count_update d i)
qed

lemma onLevelChange_next:
  assumes "follows hs evs p" and "apart hs"
  shows "follows hs (onLevelChange hs evs v (Some p)) v"
proof -
  have d: "levelChanged v (Some p) ''debug'' =
             (if groupActive ''debug'' v = groupActive ''debug'' p then None
              else Some (groupActive ''debug'' v))"
    by (auto simp: levelChanged_def groupActive_def Let_def split: option.splits)
  have i: "levelChanged v (Some p) ''info'' =
             (if groupActive ''info'' v = groupActive ''info'' p then None
              else Some (groupActive ''info'' v))"
    by (auto simp: levelChanged_def groupActive_def Let_def split: option.splits)
  from assms(2) have a: "requestInternal hs \<noteq> requestApp hs" "logInternal hs \<noteq> logApp hs"
    "requestApp hs \<noteq> requestInternal hs" "logApp hs \<noteq> logInternal hs"
    by (auto simp: apart_def)
  show ?thesis
    using assms(1) unfolding follows_iff onLevelChange_def Let_def
    by (simp add: count_update d i a)
qed

lemma levelChanges_follows:
  "follows hs evs cur \<Longrightarrow> apart hs \<Longrightarrow> \<forall>c \<in> set calls. fst c = hs \<Longrightarrow>
     follows hs (levelChanges evs cur calls) (last (cur # map snd calls))"
proof (induction calls arbitrary: evs cur)
  case Nil
  then show ?case by simp
next
  case (Cons c calls)
  obtain t v where c: "c = (t, v)" by (cases c)
  with Cons.prems(3) have t: "t = hs" by simp
  from Cons.prems(3) have rest: "\<forall>c \<in> set calls. fst c = hs" by simp
  from Cons.IH [OF onLevelChange_next [OF Cons.prems(1,2), of v] Cons.prems(2) rest]
  show ?case by (simp add: c t)
qed

text \<open>
  As long as every call finds the table of handlers that the first call found, the
  claim holds. From a state in which no handler of the table is subscribed, after the
  first call of \<open>onLevelChange\<close> with no previous threshold and any sequence of later
  calls, each passing the threshold before as the previous one, the handlers of each
  group are subscribed, once, if and only if the value of the group's reference level
  is at least the latest threshold. A call of \<open>update\<close> whose \<open>levelChanged\<close> is
  undefined (the activity did not flip) leaves the subscriptions as they are.
\<close>

lemma subscriptions_follow_threshold:
  assumes "unsubscribed hs evs0" and "apart hs" and "\<forall>c \<in> set calls. fst c = hs"
  shows "follows hs (levelChanges (onLevelChange hs evs0 v0 None) v0 calls) (last (v0 # map snd calls))
         \<and> (levelChanged v prev ref = None \<longrightarrow> update evs v prev ref pairs = evs)"
  using levelChanges_follows [OF onLevelChange_first [OF assms(1), of v0] assms(2,3)]
  by (simp add: update_unchanged)

text \<open>The level changes of the test \<open>handles level changes\<close>, from the threshold of
  \<open>debug\<close> to \<open>error\<close> and back to \<open>info\<close>, after one registration: the info group
  is subscribed again and the debug group is not.\<close>

definition firstTable :: handlers where
  "firstTable = \<lparr> requestInternal = Closure 2, logInternal = Closure 3,
                  requestApp = Closure 4, logApp = Closure 5 \<rparr>"

definition firstEvents :: "subscription list" where
  "firstEvents =
     [(''response'', [], Closure 0), (''request'', ''error'', Closure 1),
      (''request'', ''internal'', Closure 2), (''log'', ''internal'', Closure 3),
      (''request'', ''app'', Closure 4), (''log'', ''app'', Closure 5),
      (''start'', [], Closure 6), (''stop'', [], Closure 7)]"

lemma register_first:
  "register \<lparr> table = None, closures = 0 \<rparr> [] 20 = (\<lparr> table = Some firstTable, closures = 8 \<rparr>, firstEvents)"
  by (simp add: register_def onLevelChange_def update_def levelChanged_def ref_debug ref_info
        on_event_def firstTable_def firstEvents_def Let_def enat_numeral)

lemma subscriptions_follow_threshold_example:
  "levelChanges firstEvents 20 [(firstTable, 50), (firstTable, 30)] =
     [(''response'', [], Closure 0), (''request'', ''error'', Closure 1),
      (''start'', [], Closure 6), (''stop'', [], Closure 7),
      (''request'', ''app'', Closure 4), (''log'', ''app'', Closure 5)]
   \<and> follows firstTable (levelChanges firstEvents 20 [(firstTable, 50), (firstTable, 30)]) 30"
  by (simp add: onLevelChange_def update_def levelChanged_def ref_debug ref_info
        on_event_def removeListener_def firstTable_def firstEvents_def follows_iff groupActive_def
        Let_def enat_numeral)

text \<open>
  Claim C9. The claim has the subscriptions follow the threshold after any sequence of
  calls. The table \<open>internals.handlers\<close> belongs to the module, and every
  \<open>register\<close> replaces it: after the plugin has been registered on a second server,
  a call of \<open>onLevelChange\<close> for the first server unsubscribes the handlers of the
  second from the events of the first, where they never were. With both servers at the
  threshold of \<open>debug\<close> (20), raising the threshold of the first to \<open>warn\<close> (40)
  leaves its four handlers subscribed, though neither group is active at 40.
\<close>

definition secondTable :: handlers where
  "secondTable = \<lparr> requestInternal = Closure 10, logInternal = Closure 11,
                   requestApp = Closure 12, logApp = Closure 13 \<rparr>"

theorem onLevelChange_stale_handlers:
  "register \<lparr> table = None, closures = 0 \<rparr> [] 20
     = (\<lparr> table = Some firstTable, closures = 8 \<rparr>, firstEvents)
   \<and> table (fst (register \<lparr> table = Some firstTable, closures = 8 \<rparr> [] 20)) = Some secondTable
   \<and> onLevelChange secondTable firstEvents 40 (Some 20) = firstEvents
   \<and> \<not> groupActive ''debug'' 40 \<and> \<not> groupActive ''info'' 40
   \<and> count_list (onLevelChange secondTable firstEvents 40 (Some 20))
        (''request'', ''internal'', requestInternal firstTable) = 1
   \<and> count_list (onLevelChange secondTable firstEvents 40 (Some 20))
        (''log'', ''internal'', logInternal firstTable) = 1
   \<and> count_list (onLevelChange secondTable firstEvents 40 (Some 20))
        (''request'', ''app'', requestApp firstTable) = 1
   \<and> count_list (onLevelChange secondTable firstEvents 40 (Some 20))
        (''log'', ''app'', logApp firstTable) = 1"
proof -
  have r2: "table (fst (register \<lparr> table = Some firstTable, closures = 8 \<rparr> [] 20)) = Some secondTable"
    by (simp add: register_def secondTable_def Let_def)
  have lc: "onLevelChange secondTable firstEvents 40 (Some 20) = firstEvents"
    by (simp add: onLevelChange_def update_def levelChanged_def ref_debug ref_info
          removeListener_def secondTable_def firstEvents_def Let_def enat_numeral)
  have g: "\<not> groupActive ''debug'' 40" "\<not> groupActive ''info'' 40"
    by (simp_all add: groupActive_def ref_debug ref_info enat_numeral)
  show ?thesis
    unfolding lc using register_first r2 g
    by (simp add: firstEvents_def firstTable_def)
qed


section \<open>The trace record of a response error\<close>

text \<open>The record \<open>logResponseError\<close> hands to \<open>logger.trace\<close>: the request id, the
  fixed tags and the error, which the logger's \<open>err\<close> serializer renders.\<close>

definition traceRecord :: "logger \<Rightarrow> string \<Rightarrow> val \<Rightarrow> logcall" where
  "traceRecord lg ident error =
     \<lparr> lc_logger = lid lg, lc_level = ''trace'',
       lc_payload = [(''request'', FVal (JStr ident)),
                     (''tags'', FArr [FVal (JStr ''request''), FVal (JStr ''response''),
                                     FVal (JStr ''error'')]),
                     (''err'', FVal error)],
       lc_msg = ''request-internal'' \<rparr>"

lemma trace_value: "map_of pinoValues ''trace'' = Some 10"
  by (simp add: pinoValues_def)

text \<open>
  Claim C5, amended. For every response whose internal error is set and whose status
  code is not 500, and only when the trace level is enabled on the logger (its
  threshold is at most 10), \<open>logResponseError\<close> emits one trace-level
  \<open>request-internal\<close> record with the request id, the tags
  \<open>['request', 'response', 'error']\<close> and the error; for status 500, for a response
  without error and for a logger above trace it emits nothing. The trace method of the
  logger is taken to accept the record.
\<close>

theorem logResponseError_not_500:
  assumes "meth lg ''trace'' = Writes"
  shows "logResponseError lg resp ident s =
           (Done (),
            s\<lparr> log := log s @
                 (if truthy (rerror resp) \<and> rstatusCode resp \<noteq> 500 \<and> levelVal lg \<le> 10
                  then [traceRecord lg ident (rerror resp)] else []) \<rparr>)"
  using assms
  by (simp add: logResponseError_def isLevelEnabled_def trace_value callLogger_def
        traceRecord_def Let_def enat_numeral)

text \<open>A logger at the trace threshold whose methods accept every record.\<close>

definition traceLogger :: logger where
  "traceLogger = \<lparr> lid = EventLogger, levelVal = 10, meth = (\<lambda>l. Writes) \<rparr>"

text \<open>The claim as stated excludes every 5xx status. The code compares with 500 only
  (the framework reports an error of status 500 itself, on the request error channel):
  a 503 response with an error gets the trace record.\<close>

theorem logResponseError_5xx_counterexample:
  "logResponseError traceLogger \<lparr> rstatusCode = 503, rerror = JRef 0 \<rparr> ''r1'' \<lparr> heap = [], log = [] \<rparr>
     = (Done (), \<lparr> heap = [], log = [traceRecord traceLogger ''r1'' (JRef 0)] \<rparr>)"
  by (simp add: logResponseError_def isLevelEnabled_def trace_value callLogger_def
        traceRecord_def traceLogger_def Let_def enat_numeral)

theorem logResponseError_not_500_witness:
  "meth traceLogger ''trace'' = Writes
   \<and> logResponseError traceLogger \<lparr> rstatusCode = 400, rerror = JRef 0 \<rparr> ''r1'' \<lparr> heap = [], log = [] \<rparr>
       = (Done (), \<lparr> heap = [], log = [traceRecord traceLogger ''r1'' (JRef 0)] \<rparr>)
   \<and> logResponseError traceLogger \<lparr> rstatusCode = 500, rerror = JRef 0 \<rparr> ''r1'' \<lparr> heap = [], log = [] \<rparr>
       = (Done (), \<lparr> heap = [], log = [] \<rparr>)"
proof -
  have w: "meth traceLogger ''trace'' = Writes" by (simp add: traceLogger_def)
  have l: "levelVal traceLogger \<le> 10" by (simp add: traceLogger_def)
  show ?thesis
    using w l
      logResponseError_not_500 [OF w, of "\<lparr> rstatusCode = 400, rerror = JRef 0 \<rparr>" "''r1''" "\<lparr> heap = [], log = [] \<rparr>"]
      logResponseError_not_500 [OF w, of "\<lparr> rstatusCode = 500, rerror = JRef 0 \<rparr>" "''r1''" "\<lparr> heap = [], log = [] \<rparr>"]
    by simp
qed

section \<open>A plugin state and a request\<close>

lemma andThen_DoneE:
  assumes "andThen r f = Some (Done b, s')"
  obtains a s1 where "r = Some (Done a, s1)" and "f a s1 = Some (Done b, s')"
  using assms by (auto simp: andThen_def split: option.splits outcome.splits prod.splits)

text \<open>A plugin state with working loggers, an unauthenticated request with no route
  properties, and the gate of the test \<open>handles logResponse option\<close> on the path
  \<open>/fatal\<close>.\<close>

definition plainLogger :: "loggerId \<Rightarrow> enat \<Rightarrow> logger" where
  "plainLogger i t = \<lparr> lid = i, levelVal = t, meth = (\<lambda>l. Writes) \<rparr>"

definition nipo0 :: nipo where
  "nipo0 = \<lparr> responseLogger = plainLogger ResponseLogger 30,
              eventLogger = plainLogger EventLogger 30,
              tagLevels = prepareLevelMap [],
              serverId = ''srv'' \<rparr>"

definition request0 :: "responseinfo option \<Rightarrow> request" where
  "request0 resp =
     \<lparr> response = resp, infoId = ''r1'', remoteAddress = ''127.0.0.1'',
       received = 100, responded = 105, completed = 0, now = 200,
       rmethod = ''get'', pathname = ''/fatal'', search = [],
       auth = \<lparr> mode = JNull, isAuthenticated = False, isAuthorized = False,
                credentials = JNull, strategy = JNull \<rparr>,
       route = \<lparr> settingsId = JUndefined, vhost = JUndefined, rpath = ''/{p*}'',
                 realmPlugin = JUndefined, reqProps = None, resProps = None \<rparr>,
       paramsNull = False, reach = (\<lambda>p. JUndefined) \<rparr>"

text \<open>String conversion in an environment where no object can be converted.\<close>

definition noString :: strings where
  "noString = \<lparr> objStr = (\<lambda>a. None), numStr = show_int \<rparr>"

definition state0 :: hstate where
  "state0 = \<lparr> heap = [], log = [] \<rparr>"

definition fatalGate :: "request \<Rightarrow> val outcome" where
  "fatalGate rq = Done (JStr ''fatal'')"

definition responseRecord :: "request \<Rightarrow> string \<Rightarrow> int \<Rightarrow> int \<Rightarrow> logcall" where
  "responseRecord rq lvl st delay =
     \<lparr> lc_logger = ResponseLogger, lc_level = lvl,
       lc_payload = [(''req'', FObj (reqLiteral rq JUndefined)),
                     (''route'', routeLiteral rq),
                     (''res'', FObj [(''statusCode'', FVal (JNum st)),
                                     (''delay'', FVal (JNum delay))])],
       lc_msg = ''request-response'' \<rparr>"


section \<open>Fault isolation\<close>

text \<open>
  A thrown value has a constructor when reading \<open>err.constructor.name\<close> succeeds on what
  the \<open>catch\<close> block holds after \<open>err || new Error(...)\<close>; a falsy value is replaced
  by an \<open>Error\<close>, which has one. \<open>caughtError\<close> is the error the record describes and
  \<open>nipoError\<close> the record: level \<open>fatal\<close>, the fields \<open>server\<close>, \<open>type\<close>,
  \<open>message\<close> and \<open>stack\<close>, and the message key \<open>nipo-error\<close>.
\<close>

definition hasConstructor :: "thrown \<Rightarrow> bool" where
  "hasConstructor ex = (case ex of Truthy None m st \<Rightarrow> False | _ \<Rightarrow> True)"

definition caughtError :: "string \<Rightarrow> thrown \<Rightarrow> thrown" where
  "caughtError handler ex =
     (case ex of
        Falsy \<Rightarrow> Truthy (Some ''Error'') (JStr (''Unknown throw during: '' @ handler))
                   (JStr (''Error: Unknown throw during: '' @ handler))
      | Truthy c m st \<Rightarrow> ex)"

definition nipoError :: "nipo \<Rightarrow> string \<Rightarrow> val \<Rightarrow> val \<Rightarrow> logcall" where
  "nipoError np ty m st =
     \<lparr> lc_logger = lid (eventLogger np), lc_level = ''fatal'',
       lc_payload = [(''server'', FVal (JStr (serverId np))),
                     (''type'', FVal (JStr ty)),
                     (''message'', FVal m),
                     (''stack'', FVal st)],
       lc_msg = ''nipo-error'' \<rparr>"

lemma safeHandler_passes:
  "boundFn s = Some (Done r, s1) \<Longrightarrow> safeHandler handler np boundFn s = Some (Done r, s1)"
  by (simp add: safeHandler_def)

text \<open>
  Claim C2, amended. When the wrapped translator throws a value that is falsy or has a
  constructor, the wrapper hands one \<open>fatal\<close> record to the event logger, with the
  fields \<open>server\<close>, \<open>type\<close>, \<open>message\<close>, \<open>stack\<close> and the message key
  \<open>nipo-error\<close>; for a falsy value the message is
  \<open>Unknown throw during: <handler name>\<close>. If the event logger's \<open>fatal\<close> method
  accepts the record, the wrapper returns normally and nothing propagates; if that
  method throws, its exception is what the wrapper throws.
\<close>

theorem safeHandler_catches:
  assumes thrown: "boundFn s = Some (Throw ex, s1)"
    and ctor: "hasConstructor ex"
  shows "(\<exists>nm m st. caughtError handler ex = Truthy (Some nm) m st \<and>
            (meth (eventLogger np) ''fatal'' = Writes \<longrightarrow>
               safeHandler handler np boundFn s =
                 Some (Done (), s1\<lparr> log := log s1 @ [nipoError np nm m st] \<rparr>)))
         \<and> (\<forall>t. meth (eventLogger np) ''fatal'' = Throws t \<longrightarrow>
               safeHandler handler np boundFn s = Some (Throw t, s1))"
proof (cases ex)
  case Falsy
  then show ?thesis
    using thrown
    by (simp add: safeHandler_def caughtError_def newError_def callLogger_def nipoError_def Let_def)
next
  case (Truthy c m st)
  with ctor obtain nm where c: "c = Some nm"
    by (cases c) (auto simp: hasConstructor_def)
  show ?thesis
    using thrown Truthy c
    by (simp add: safeHandler_def caughtError_def callLogger_def nipoError_def Let_def)
qed

text \<open>The test \<open>logs "fatal" event for processing errors\<close>: the \<open>info\<close> method of
  the response logger is replaced by a function that throws \<open>undefined\<close>.\<close>

definition throwingInfo :: "string \<Rightarrow> loggerMethod" where
  "throwingInfo l = (if l = ''info'' then Throws Falsy else Writes)"

definition nipoThrowingInfo :: nipo where
  "nipoThrowingInfo =
     nipo0\<lparr> responseLogger := \<lparr> lid = ResponseLogger, levelVal = 10, meth = throwingInfo \<rparr> \<rparr>"

theorem safeHandler_catches_witness:
  "onResponseHandler noString None nipoThrowingInfo
       (request0 (Some \<lparr> rstatusCode = 200, rerror = JNull \<rparr>)) state0 = Some (Throw Falsy, state0)
   \<and> hasConstructor Falsy
   \<and> safeHandler ''onResponseHandler'' nipoThrowingInfo
        (onResponseHandler noString None nipoThrowingInfo
           (request0 (Some \<lparr> rstatusCode = 200, rerror = JNull \<rparr>))) state0
      = Some (Done (), \<lparr> heap = [], log = [nipoError nipoThrowingInfo ''Error''
            (JStr ''Unknown throw during: onResponseHandler'')
            (JStr ''Error: Unknown throw during: onResponseHandler'')] \<rparr>)"
proof -
  let ?rq = "request0 (Some \<lparr> rstatusCode = 200, rerror = JNull \<rparr>)"
  have f: "response ?rq = Some \<lparr> rstatusCode = 200, rerror = JNull \<rparr>"
    "mode (auth ?rq) = JNull" "reqProps (route ?rq) = None" "resProps (route ?rq) = None"
    by (simp_all add: request0_def)
  have i: "meth (responseLogger nipoThrowingInfo) ''info'' = Throws Falsy"
    by (simp add: nipoThrowingInfo_def throwingInfo_def)
  have w: "meth (eventLogger nipoThrowingInfo) ''fatal'' = Writes"
    by (simp add: nipoThrowingInfo_def nipo0_def plainLogger_def)
  have run: "onResponseHandler noString None nipoThrowingInfo ?rq state0 = Some (Throw Falsy, state0)"
    by (simp add: onResponseHandler_def responseLine_def credentialsField_def errorFields_def
          defaultLevel_def f andThen_def onHeap_def applyUserProps_def callLogger_def i Let_def)
  have c: "hasConstructor Falsy" by (simp add: hasConstructor_def)
  have ce: "caughtError ''onResponseHandler'' Falsy =
      Truthy (Some ''Error'') (JStr ''Unknown throw during: onResponseHandler'')
        (JStr ''Error: Unknown throw during: onResponseHandler'')"
    by (simp add: caughtError_def)
  from safeHandler_catches [where boundFn = "onResponseHandler noString None nipoThrowingInfo ?rq"
      and s = state0 and handler = "''onResponseHandler''" and np = nipoThrowingInfo, OF run c]
  show ?thesis using run c w ce by (simp add: state0_def)
qed

text \<open>
  The claim as stated fails on two inputs. A gate that throws an object without
  constructor (\<open>throw Object.create(null)\<close>): reading \<open>err.constructor.name\<close> in the
  \<open>catch\<close> block throws, and that \<open>TypeError\<close> leaves the wrapper. An event logger
  whose \<open>fatal\<close> is no function (as the test does to \<open>responseLogger.info\<close>): the
  translator of an implementation error throws, and so does the \<open>catch\<close> block.
\<close>

definition bareGate :: "request \<Rightarrow> val outcome" where
  "bareGate rq = Throw (Truthy None JUndefined JUndefined)"

definition nipoNoFatal :: nipo where
  "nipoNoFatal =
     nipo0\<lparr> eventLogger := \<lparr> lid = EventLogger, levelVal = 30, meth = (\<lambda>l. NotAFunction) \<rparr> \<rparr>"

definition event0 :: event where
  "event0 = \<lparr> evRequest = ''r1'', evTags = [''internal'', ''error''], evData = JUndefined,
              evError = JUndefined \<rparr>"

theorem safeHandler_propagates_counterexample:
  "safeHandler ''onResponseHandler'' nipo0
      (onResponseHandler noString (Some bareGate) nipo0
         (request0 (Some \<lparr> rstatusCode = 200, rerror = JNull \<rparr>))) state0
     = Some (Throw (TypeError ''Cannot read properties of undefined (reading name)''), state0)
   \<and> safeHandler ''onRequestErrorHandler'' nipoNoFatal
        (onRequestErrorHandler nipoNoFatal event0 True) state0
     = Some (Throw (TypeError ''fatal is not a function''), state0)"
proof -
  let ?rq = "request0 (Some \<lparr> rstatusCode = 200, rerror = JNull \<rparr>)"
  have f: "response ?rq = Some \<lparr> rstatusCode = 200, rerror = JNull \<rparr>"
    by (simp add: request0_def)
  have a: "onResponseHandler noString (Some bareGate) nipo0 ?rq state0
             = Some (Throw (Truthy None JUndefined JUndefined), state0)"
    by (simp add: onResponseHandler_def f bareGate_def)
  have m: "meth (eventLogger nipoNoFatal) ''fatal'' = NotAFunction"
    by (simp add: nipoNoFatal_def)
  have b: "onRequestErrorHandler nipoNoFatal event0 True state0
             = Some (Throw (TypeError ''fatal is not a function''), state0)"
    by (simp add: onRequestErrorHandler_def callLogger_def m)
  show ?thesis
    by (simp add: safeHandler_def a b callLogger_def m TypeError_def)
qed

section \<open>The type label of an error\<close>

text \<open>
  The words of the claim. A cause is distinguishable when it is an \<open>Error\<close> whose name
  is not the plain \<open>'Error'\<close>; an error carries a custom name when its name differs
  from the name of its class. \<open>claimedName\<close> is the label as the claim states it, with
  the cause taken as \<open>errorCause\<close> finds it: the explicit cause, or for a Boom error
  the data payload that is itself an error.
\<close>

definition distinguishable :: "heap \<Rightarrow> val \<Rightarrow> string option" where
  "distinguishable h c =
     (case errProps h c of
        Some ce \<Rightarrow> (if ename ce \<noteq> ''Error'' then Some (ename ce) else None)
      | None \<Rightarrow> None)"

definition customName :: "errfields \<Rightarrow> string option" where
  "customName e = (if ename e \<noteq> ctorName e then Some (ename e) else None)"

definition boomLabel :: "string option \<Rightarrow> string" where
  "boomLabel inner =
     (case inner of
        Some n \<Rightarrow> (if n \<noteq> [] then ''Boom('' @ n @ '')'' else ''Boom'')
      | None \<Rightarrow> ''Boom'')"

definition claimedName :: "heap \<Rightarrow> errfields \<Rightarrow> string" where
  "claimedName h e =
     (if isBoom e then
        boomLabel (case distinguishable h (errorCause h e) of
                     Some n \<Rightarrow> Some n
                   | None \<Rightarrow> customName e)
      else ename e)"

text \<open>
  Claim C7, amended. For a generic error the label is the error's own name. For a Boom
  error whose constructor is Boom's own, the label is \<open>Boom(<name of the cause>)\<close>
  when the explicit \<open>cause\<close> is a distinguishable error, else \<open>Boom(<name>)\<close> when
  the error carries a custom name, else \<open>Boom\<close>; the data payload plays no part. For
  a Boom error of another constructor (a boomified error) the label is
  \<open>Boom(<name>)\<close> with the error's own name. An empty name gives \<open>Boom\<close>. The label
  agrees with the claim's wherever the constructor is Boom's own and the data payload
  is not standing in for the cause.
\<close>

theorem errorName_label:
  "(\<not> isBoom e \<longrightarrow> errorName h e = ename e)
   \<and> (isBoom e \<and> ctorIsBoom e \<longrightarrow>
        errorName h e =
          boomLabel (case distinguishable h (cause e) of
                       Some n \<Rightarrow> Some n
                     | None \<Rightarrow> customName e))
   \<and> (isBoom e \<and> \<not> ctorIsBoom e \<longrightarrow> errorName h e = boomLabel (Some (ename e)))
   \<and> (ctorIsBoom e \<and> (cause e \<noteq> JUndefined \<or> \<not> isError h (edata e)) \<longrightarrow>
        errorName h e = claimedName h e)"
  by (auto simp: errorName_def claimedName_def boomLabel_def distinguishable_def customName_def
        errorCause_def isError_def Let_def split: option.splits)

text \<open>Errors for the examples: a generic error, and a Boom error as \<open>new Boom(msg,
  {statusCode, data})\<close> builds it, whose constructor is the one \<open>boomCtor\<close> holds.\<close>

definition errorObj :: "errfields \<Rightarrow> obj" where
  "errorObj e = \<lparr> body = Object [], toJSON = None, ctor = Some (ctorName e), err = Some e \<rparr>"

definition plainError :: "string \<Rightarrow> string \<Rightarrow> errfields" where
  "plainError nm msg =
     \<lparr> ename = nm, message = msg, stack = JStr (nm @ '': '' @ msg), cause = JUndefined,
       edata = JUndefined, code = JUndefined, isBoom = False, ctorIsBoom = False,
       ctorName = nm, statusCode = JUndefined \<rparr>"

definition boomError :: "string \<Rightarrow> int \<Rightarrow> val \<Rightarrow> errfields" where
  "boomError msg st d =
     \<lparr> ename = ''Error'', message = msg, stack = JStr (''Error: '' @ msg), cause = JUndefined,
       edata = d, code = JUndefined, isBoom = True, ctorIsBoom = True,
       ctorName = ''Error'', statusCode = JNum st \<rparr>"

text \<open>The claim as stated fails for \<open>Boom.notFound('oops', new TypeError('fail'))\<close>:
  the data payload is the cause of the chain, and a distinguishable one, but
  \<open>errorName\<close> reads \<open>error.cause\<close> only and answers \<open>Boom\<close>.\<close>

definition dataCauseHeap :: heap where
  "dataCauseHeap = [errorObj (plainError ''TypeError'' ''fail'')]"

theorem errorName_data_cause_counterexample:
  "errorCause dataCauseHeap (boomError ''oops'' 404 (JRef 0)) = JRef 0
   \<and> claimedName dataCauseHeap (boomError ''oops'' 404 (JRef 0)) = ''Boom(TypeError)''
   \<and> errorName dataCauseHeap (boomError ''oops'' 404 (JRef 0)) = ''Boom''"
  by (simp add: errorCause_def errorName_def claimedName_def boomLabel_def distinguishable_def
        customName_def isError_def errProps_def dataCauseHeap_def errorObj_def boomError_def
        plainError_def)

text \<open>The labels of the serializer's tests: a Boom error with a \<open>TypeError\<close> cause, a
  regular Boom error, one with a custom name, a boomified \<open>TypeError\<close> and a generic
  error.\<close>

definition causeHeap :: heap where
  "causeHeap = [errorObj (plainError ''TypeError'' ''real error'')]"

theorem errorName_label_witness:
  "errorName causeHeap ((boomError ''oops'' 500 JNull)\<lparr> cause := JRef 0 \<rparr>) = ''Boom(TypeError)''
   \<and> errorName causeHeap (boomError ''DO NOT ENTER!'' 403 JNull) = ''Boom''
   \<and> errorName causeHeap ((boomError ''oops'' 404 JNull)\<lparr> ename := ''FourOhFour'' \<rparr>) = ''Boom(FourOhFour)''
   \<and> errorName causeHeap ((plainError ''TypeError'' ''fail'')\<lparr> isBoom := True \<rparr>) = ''Boom(TypeError)''
   \<and> errorName causeHeap (plainError ''TypeError'' ''fail'') = ''TypeError''"
proof -
  have d: "distinguishable causeHeap (JRef 0) = Some ''TypeError''"
    "distinguishable causeHeap JUndefined = None"
    by (simp_all add: distinguishable_def errProps_def causeHeap_def errorObj_def plainError_def)
  show ?thesis
    using errorName_label [of "(boomError ''oops'' 500 JNull)\<lparr> cause := JRef 0 \<rparr>" causeHeap]
      errorName_label [of "boomError ''DO NOT ENTER!'' 403 JNull" causeHeap]
      errorName_label [of "(boomError ''oops'' 404 JNull)\<lparr> ename := ''FourOhFour'' \<rparr>" causeHeap]
      errorName_label [of "(plainError ''TypeError'' ''fail'')\<lparr> isBoom := True \<rparr>" causeHeap]
      errorName_label [of "plainError ''TypeError'' ''fail''" causeHeap]
    by (simp add: d boomError_def plainError_def boomLabel_def customName_def)
qed

section \<open>Properties of the sanitizer\<close>

subsection \<open>The two loops as one\<close>

text \<open>
  The loop over the indices of an array and the loop over the keys of an object differ
  in how a slot is read and written and in the key passed down. For the proofs both are
  instances of one loop over slots, with the sanitizer of the elements as a parameter;
  \<open>arrayLoop_slotLoop\<close> and \<open>objectLoop_slotLoop\<close> show that this is what
  \<open>arrayLoop\<close> and \<open>objectLoop\<close> compute.
\<close>

datatype slot = Index nat | Key string

fun getSlot :: "heap \<Rightarrow> nat \<Rightarrow> slot \<Rightarrow> val" where
  "getSlot h a (Index i) = arrayGet h a i"
| "getSlot h a (Key k) = objectGet h a k"

fun setSlot :: "heap \<Rightarrow> nat \<Rightarrow> slot \<Rightarrow> val \<Rightarrow> heap" where
  "setSlot h a (Index i) v = arraySet h a i v"
| "setSlot h a (Key k) v = objectSet h a k v"

fun slotKey :: "slot \<Rightarrow> string" where
  "slotKey (Index i) = show_nat i"
| "slotKey (Key k) = k"

type_synonym sanitizer = "val \<Rightarrow> string \<Rightarrow> val list \<Rightarrow> heap \<Rightarrow> (val outcome \<times> val list \<times> heap) option"

fun slotLoop ::
    "sanitizer \<Rightarrow> slot list \<Rightarrow> nat \<Rightarrow> nat \<Rightarrow> val list \<Rightarrow> heap \<Rightarrow> (nat outcome \<times> val list \<times> heap) option" where
  "slotLoop f [] orig ob stk h = Some (Done ob, stk, h)"
| "slotLoop f (sl # sls) orig ob stk h =
     (case f (getSlot h orig sl) (slotKey sl) stk h of
        None \<Rightarrow> None
      | Some (Throw e, stk1, h1) \<Rightarrow> Some (Throw e, stk1, h1)
      | Some (Done jsonValue, stk1, h1) \<Rightarrow>
          (if \<not> strictEq (getSlot h orig sl) jsonValue then
             (if ob = orig
              then slotLoop f sls orig (length h1) stk1
                     (setSlot (h1 @ [copyOf (h1 ! ob)]) (length h1) sl jsonValue)
              else slotLoop f sls orig ob stk1 (setSlot h1 ob sl jsonValue))
           else slotLoop f sls orig ob stk1 h1))"

lemma arrayLoop_slotLoop:
  "arrayLoop n is orig ob stk h = slotLoop (safeJsonObject n) (map Index is) orig ob stk h"
  by (induction "is" arbitrary: ob stk h)
     (auto simp: Let_def alloc_def split: option.splits outcome.splits prod.splits)

lemma objectLoop_slotLoop:
  "objectLoop n ks orig ob stk h = slotLoop (safeJsonObject n) (map Key ks) orig ob stk h"
  by (induction ks arbitrary: ob stk h)
     (auto simp: Let_def alloc_def split: option.splits outcome.splits prod.splits)

subsection \<open>The input is never written\<close>

text \<open>
  \<open>keeps N h h'\<close>: the heap \<open>h'\<close> has every object of \<open>h\<close> below address \<open>N\<close>
  unchanged, and is at least as long. \<open>copiesAbove N h\<close>: the objects from address
  \<open>N\<close> on are no errors, as the copies the sanitizer makes. A sanitizer is
  \<open>framed\<close> when each call keeps every object that existed when it was called, adds
  copies only, and returns the stack as it got it whenever it returns a value.
\<close>

definition keeps :: "nat \<Rightarrow> heap \<Rightarrow> heap \<Rightarrow> bool" where
  "keeps N h h' = (length h \<le> length h' \<and> (\<forall>a<N. h' ! a = h ! a))"

definition copiesAbove :: "nat \<Rightarrow> heap \<Rightarrow> bool" where
  "copiesAbove N h = (\<forall>a. N \<le> a \<and> a < length h \<longrightarrow> err (h ! a) = None)"

lemma keeps_refl: "keeps N h h"
  by (simp add: keeps_def)

lemma keeps_trans: "keeps N h h1 \<Longrightarrow> keeps N h1 h2 \<Longrightarrow> keeps N h h2"
  by (auto simp: keeps_def)

lemma keeps_mono: "keeps M h h' \<Longrightarrow> N \<le> M \<Longrightarrow> keeps N h h'"
  by (auto simp: keeps_def)

lemma length_setSlot: "length (setSlot h a sl v) = length h"
  by (cases sl) (auto simp: arraySet_def objectSet_def split: body.splits)

lemma nth_setSlot_other: "b \<noteq> a \<Longrightarrow> setSlot h a sl v ! b = h ! b"
  by (cases sl) (auto simp: arraySet_def objectSet_def split: body.splits)

lemma toJSON_setSlot: "a < length h \<Longrightarrow> toJSON (setSlot h a sl v ! a) = toJSON (h ! a)"
  by (cases sl) (auto simp: arraySet_def objectSet_def split: body.splits)

lemma err_setSlot: "a < length h \<Longrightarrow> err (setSlot h a sl v ! a) = err (h ! a)"
  by (cases sl) (auto simp: arraySet_def objectSet_def split: body.splits)

lemma keeps_setSlot: "N \<le> a \<Longrightarrow> keeps N h (setSlot h a sl v)"
  by (auto simp: keeps_def length_setSlot nth_setSlot_other)

lemma keeps_append: "N \<le> length h \<Longrightarrow> keeps N h (h @ ext)"
  by (auto simp: keeps_def nth_append)

lemma copiesAbove_setSlot: "copiesAbove N h \<Longrightarrow> copiesAbove N (setSlot h a sl v)"
  unfolding copiesAbove_def length_setSlot
  by (metis err_setSlot nth_setSlot_other)

lemma err_copyOf [simp]: "err (copyOf ob) = None"
  by (simp add: copyOf_def split: body.splits)

lemma body_copyOf [simp]: "body (copyOf ob) = body ob"
  by (simp add: copyOf_def split: body.splits)

lemma copiesAbove_copy: "copiesAbove N h \<Longrightarrow> copiesAbove N (h @ [copyOf ob])"
  by (auto simp: copiesAbove_def nth_append)

lemma copiesAbove_keeps:
  "copiesAbove N h \<Longrightarrow> N \<le> length h \<Longrightarrow> keeps (length h) h h' \<Longrightarrow> copiesAbove (length h) h'
     \<Longrightarrow> copiesAbove N h'"
  unfolding copiesAbove_def keeps_def
  by (metis not_le_imp_less)

definition framed :: "sanitizer \<Rightarrow> bool" where
  "framed f =
     (\<forall>v k stk h r stk' h'. f v k stk h = Some (r, stk', h') \<longrightarrow>
        keeps (length h) h h' \<and> copiesAbove (length h) h' \<and> (\<forall>x. r = Done x \<longrightarrow> stk' = stk))"

lemma framedD:
  "framed f \<Longrightarrow> f v k stk h = Some (r, stk', h') \<Longrightarrow>
     keeps (length h) h h' \<and> copiesAbove (length h) h' \<and> (\<forall>x. r = Done x \<longrightarrow> stk' = stk)"
  unfolding framed_def by blast

lemma slotLoop_framed:
  assumes f: "framed f"
  shows "slotLoop f sls orig ob stk h = Some (r, stk', h') \<Longrightarrow> N \<le> length h \<Longrightarrow>
         ob < length h \<and> (ob = orig \<or> N \<le> ob) \<Longrightarrow> copiesAbove N h \<Longrightarrow>
           keeps N h h' \<and> copiesAbove N h' \<and>
           (\<forall>ob'. r = Done ob' \<longrightarrow> stk' = stk \<and> ob' < length h' \<and>
              (ob' = ob \<or> (ob = orig \<and> length h \<le> ob')))"
proof (induction sls arbitrary: ob stk h)
  case Nil
  then show ?case by (auto simp: keeps_refl)
next
  case (Cons sl sls)
  from Cons.prems(1) obtain r1 stk1 h1 where
    call: "f (getSlot h orig sl) (slotKey sl) stk h = Some (r1, stk1, h1)"
    by (auto split: option.splits)
  note fr = framedD [OF f call]
  have k1: "keeps N h h1" using fr Cons.prems(2) by (auto intro: keeps_mono)
  have p1: "copiesAbove N h1" using fr Cons.prems(2,4) by (auto intro: copiesAbove_keeps)
  have len1: "length h \<le> length h1" using fr by (simp add: keeps_def)
  show ?case
  proof (cases r1)
    case (Throw e)
    with call Cons.prems(1) k1 p1 show ?thesis by auto
  next
    case (Done jv)
    then have stk1: "stk1 = stk" using fr by simp
    show ?thesis
    proof (cases "\<not> strictEq (getSlot h orig sl) jv")
      case False
      with call Done Cons.prems(1) have rest: "slotLoop f sls orig ob stk1 h1 = Some (r, stk', h')"
        by simp
      have "ob < length h1 \<and> (ob = orig \<or> N \<le> ob)" using Cons.prems(3) len1 by auto
      from Cons.IH [OF rest _ this p1] Cons.prems(2) len1 k1 stk1
      show ?thesis by (auto intro: keeps_trans)
    next
      case True
      note changed = this
      show ?thesis
      proof (cases "ob = orig")
        case True
        let ?h2 = "setSlot (h1 @ [copyOf (h1 ! ob)]) (length h1) sl jv"
        from call Done Cons.prems(1) changed True
        have rest: "slotLoop f sls orig (length h1) stk1 ?h2 = Some (r, stk', h')"
          by simp
        have l2: "length ?h2 = Suc (length h1)" by (simp add: length_setSlot)
        have k2: "keeps N h1 ?h2"
          using Cons.prems(2) len1
          by (auto intro!: keeps_trans [OF keeps_append keeps_setSlot])
        have p2: "copiesAbove N ?h2"
          using p1 by (auto intro!: copiesAbove_setSlot copiesAbove_copy)
        have "length h1 < length ?h2 \<and> (length h1 = orig \<or> N \<le> length h1)"
          using Cons.prems(2) len1 l2 by auto
        from Cons.IH [OF rest _ this p2] Cons.prems(2) len1 l2 k1 k2 stk1 True
        show ?thesis by (auto intro: keeps_trans)
      next
        case False
        let ?h2 = "setSlot h1 ob sl jv"
        from call Done Cons.prems(1) changed False
        have rest: "slotLoop f sls orig ob stk1 ?h2 = Some (r, stk', h')"
          by simp
        from False Cons.prems(3) have ob: "N \<le> ob" "ob < length h" by auto
        have k2: "keeps N h1 ?h2" using ob by (auto intro: keeps_setSlot)
        have p2: "copiesAbove N ?h2" using p1 by (rule copiesAbove_setSlot)
        have "ob < length ?h2 \<and> (ob = orig \<or> N \<le> ob)"
          using ob len1 by (simp add: length_setSlot)
        from Cons.IH [OF rest _ this p2] Cons.prems(2) len1 k1 k2 stk1 False
        show ?thesis by (auto simp: length_setSlot intro: keeps_trans)
      qed
    qed
  qed
qed


text \<open>The slots of a body, and the defining equation of \<open>safeJsonObject\<close> with the
  two loops as slot loops.\<close>

fun slots :: "body \<Rightarrow> slot list" where
  "slots (Array es) = map Index [0..<length es]"
| "slots (Object ps) = map Key (map fst ps)"

lemma safeJsonObject_Suc:
  "safeJsonObject (Suc n) v k stk h =
     (if v = JUndefined \<or> v = JNull then Some (Done v, stk, h)
      else
        (case callToJSON h v k of
           JNull \<Rightarrow>
             (if v \<in> set stk then Some (Done circular, stk, h)
              else Some (Throw (TypeError ''Cannot convert undefined or null to object''),
                         stk @ [v], h))
         | JRef orig \<Rightarrow>
             (if v \<in> set stk then Some (Done circular, stk, h)
              else if orig < length h then
                (case slotLoop (safeJsonObject n) (slots (body (h ! orig))) orig orig (stk @ [v]) h of
                   None \<Rightarrow> None
                 | Some (Done ob', stk2, h2) \<Rightarrow> Some (Done (JRef ob'), butlast stk2, h2)
                 | Some (Throw e, stk2, h2) \<Rightarrow> Some (Throw e, stk2, h2))
              else None)
         | JBigInt i \<Rightarrow> Some (Done (JStr (show_int i @ ''n'')), stk, h)
         | w \<Rightarrow> Some (Done w, stk, h)))"
  by (simp add: Let_def isObjectVal_def arrayLoop_slotLoop objectLoop_slotLoop
        split: val.splits body.splits)

declare safeJsonObject.simps(2) [simp del]

lemma copiesAbove_length: "copiesAbove (length h) h"
  by (auto simp: copiesAbove_def)

lemma safeJsonObject_framed: "framed (safeJsonObject n)"
proof (induction n)
  case 0
  show ?case by (simp add: framed_def)
next
  case (Suc n)
  show ?case
    unfolding framed_def
  proof (intro allI impI)
    fix v k stk h r stk' h'
    assume run: "safeJsonObject (Suc n) v k stk h = Some (r, stk', h')"
    show "keeps (length h) h h' \<and> copiesAbove (length h) h' \<and> (\<forall>x. r = Done x \<longrightarrow> stk' = stk)"
    proof (cases "\<exists>orig. v \<noteq> JUndefined \<and> v \<noteq> JNull \<and> callToJSON h v k = JRef orig \<and> v \<notin> set stk")
      case False
      with run show ?thesis
        by (auto simp: safeJsonObject_Suc keeps_refl copiesAbove_length split: val.splits if_splits)
    next
      case True
      then obtain orig where o: "v \<noteq> JUndefined" "v \<noteq> JNull" "callToJSON h v k = JRef orig"
        "v \<notin> set stk" by blast
      with run have lt: "orig < length h"
        by (auto simp: safeJsonObject_Suc split: if_splits)
      from run o lt obtain r1 stk1 where
        loop: "slotLoop (safeJsonObject n) (slots (body (h ! orig))) orig orig (stk @ [v]) h
                 = Some (r1, stk1, h')"
        and res: "(case r1 of Done ob' \<Rightarrow> r = Done (JRef ob') \<and> stk' = butlast stk1
                   | Throw e \<Rightarrow> r = Throw e \<and> stk' = stk1)"
        by (auto simp: safeJsonObject_Suc split: option.splits outcome.splits)
      from slotLoop_framed [OF Suc loop, of "length h"] lt
      have "keeps (length h) h h'" "copiesAbove (length h) h'"
        "\<forall>ob'. r1 = Done ob' \<longrightarrow> stk1 = stk @ [v]"
        by (auto simp: copiesAbove_length)
      with res show ?thesis by (auto split: outcome.splits)
    qed
  qed
qed

subsection \<open>Termination on cyclic graphs\<close>

text \<open>
  A heap is closed below \<open>N\<close> when the objects below \<open>N\<close> refer only to objects
  below \<open>N\<close>, in their elements, their properties and the results of their
  \<open>toJSON\<close>, whatever has been added to the heap above \<open>N\<close>. The input of a call is
  such a part of the heap; the copies the sanitizer allocates lie above it. The recursion descends only into objects that are not on the
  stack, so its depth is bounded by the number of objects below \<open>N\<close> that are not on
  the stack.
\<close>

definition refOK :: "nat \<Rightarrow> val \<Rightarrow> bool" where
  "refOK N v = (case v of JRef b \<Rightarrow> b < N | _ \<Rightarrow> True)"

fun bodyVals :: "body \<Rightarrow> val list" where
  "bodyVals (Array es) = es"
| "bodyVals (Object ps) = map snd ps"

definition closedBelow :: "nat \<Rightarrow> heap \<Rightarrow> bool" where
  "closedBelow N h =
     (N \<le> length h \<and>
      (\<forall>a<N. (\<forall>v \<in> set (bodyVals (body (h ! a))). refOK N v) \<and>
              (\<forall>how f h' k. toJSON (h ! a) = Some (how, f) \<and> keeps N h h' \<longrightarrow>
                  refOK N (f (map body h') a k))))"

definition unvisited :: "nat \<Rightarrow> val list \<Rightarrow> nat set" where
  "unvisited N stk = {a. a < N \<and> JRef a \<notin> set stk}"

lemma unvisited_push:
  assumes "a < N" and "JRef a \<notin> set stk"
  shows "card (unvisited N (stk @ [JRef a])) < card (unvisited N stk)"
proof -
  have fin: "finite (unvisited N stk)"
    by (rule finite_subset [of _ "{..<N}"]) (auto simp: unvisited_def)
  have "unvisited N (stk @ [JRef a]) \<subset> unvisited N stk"
    using assms by (auto simp: unvisited_def)
  then show ?thesis
    using fin by (rule psubset_card_mono [rotated])
qed

lemma closedBelow_toJSOND:
  "closedBelow N h \<Longrightarrow> a < N \<Longrightarrow> toJSON (h ! a) = Some (how, f) \<Longrightarrow> keeps N h h' \<Longrightarrow>
     refOK N (f (map body h') a k)"
  unfolding closedBelow_def by blast

lemma closedBelow_keeps:
  assumes c: "closedBelow N h" and k: "keeps N h h'"
  shows "closedBelow N h'"
  unfolding closedBelow_def
proof (intro conjI allI impI ballI)
  from c k show "N \<le> length h'" by (simp add: closedBelow_def keeps_def)
next
  fix a v assume a: "a < N" and v: "v \<in> set (bodyVals (body (h' ! a)))"
  from k a have "h' ! a = h ! a" by (simp add: keeps_def)
  with c a v show "refOK N v" by (simp add: closedBelow_def)
next
  fix a how f h'' kk
  assume a: "a < N" and t: "toJSON (h' ! a) = Some (how, f) \<and> keeps N h' h''"
  from k a have "h' ! a = h ! a" by (simp add: keeps_def)
  with t have t': "toJSON (h ! a) = Some (how, f)" by simp
  from k t have "keeps N h h''" by (blast intro: keeps_trans)
  with c a t' show "refOK N (f (map body h'') a kk)" by (rule closedBelow_toJSOND)
qed



lemma closedBelow_bodyD:
  "closedBelow N h \<Longrightarrow> a < N \<Longrightarrow> v \<in> set (bodyVals (body (h ! a))) \<Longrightarrow> refOK N v"
  unfolding closedBelow_def by blast

lemma refOK_prim [simp]:
  "refOK N JUndefined" "refOK N JNull" "refOK N (JBool b)" "refOK N (JNum i)" "refOK N JNaN"
  "refOK N (JStr s)" "refOK N (JBigInt i)" "refOK N (JRef a) = (a < N)"
  by (simp_all add: refOK_def)

lemma refOK_getSlot:
  assumes c: "closedBelow N h" and o: "orig < N"
  shows "refOK N (getSlot h orig sl)"
proof (cases sl)
  case (Index i)
  show ?thesis
  proof (cases "body (h ! orig)")
    case (Array es)
    show ?thesis
    proof (cases "i < length es")
      case True
      then have "es ! i \<in> set (bodyVals (body (h ! orig)))" using Array by simp
      from closedBelow_bodyD [OF c o this] True Array Index show ?thesis
        by (simp add: arrayGet_def)
    next
      case False
      then show ?thesis using Array Index by (simp add: arrayGet_def)
    qed
  next
    case (Object ps)
    then show ?thesis using Index by (simp add: arrayGet_def)
  qed
next
  case (Key k)
  show ?thesis
  proof (cases "body (h ! orig)")
    case (Array es)
    then show ?thesis using Key by (simp add: objectGet_def)
  next
    case (Object ps)
    show ?thesis
    proof (cases "map_of ps k")
      case None
      then show ?thesis using Key Object by (simp add: objectGet_def)
    next
      case (Some v)
      then have "(k, v) \<in> set ps" by (rule map_of_SomeD)
      then have "v \<in> set (bodyVals (body (h ! orig)))"
        using Object by (simp add: image_iff) force
      from closedBelow_bodyD [OF c o this] Key Object Some show ?thesis
        by (simp add: objectGet_def)
    qed
  qed
qed

lemma refOK_callToJSON:
  assumes c: "closedBelow N h" and v: "refOK N v"
  shows "refOK N (callToJSON h v k)"
proof (cases v)
  case (JRef a)
  with v have a: "a < N" by simp
  have l: "a < length h" using a c by (simp add: closedBelow_def)
  show ?thesis
  proof (cases "toJSON (h ! a)")
    case None
    with JRef a l show ?thesis by (simp add: callToJSON_def)
  next
    case (Some m)
    obtain how f where m: "m = (how, f)" by (cases m)
    from closedBelow_toJSOND [OF c a Some [unfolded m] keeps_refl, of k]
    show ?thesis using JRef l Some m by (simp add: callToJSON_def)
  qed
qed (simp_all add: callToJSON_def)

lemma slotLoop_total:
  assumes f: "framed f"
    and tot: "\<And>v k h. closedBelow N h \<Longrightarrow> refOK N v \<Longrightarrow> f v k stk h \<noteq> None"
  shows "closedBelow N h \<Longrightarrow> orig < N \<Longrightarrow> ob < length h \<and> (ob = orig \<or> N \<le> ob) \<Longrightarrow>
           slotLoop f sls orig ob stk h \<noteq> None"
proof (induction sls arbitrary: ob h)
  case Nil
  show ?case by simp
next
  case (Cons sl sls)
  have N: "N \<le> length h" using Cons.prems(1) by (simp add: closedBelow_def)
  from tot [OF Cons.prems(1) refOK_getSlot [OF Cons.prems(1,2)], of sl "slotKey sl"]
  obtain r1 stk1 h1 where
    call: "f (getSlot h orig sl) (slotKey sl) stk h = Some (r1, stk1, h1)"
    by (cases "f (getSlot h orig sl) (slotKey sl) stk h") auto
  note fr = framedD [OF f call]
  have k1: "keeps N h h1" using fr N by (auto intro: keeps_mono)
  have c1: "closedBelow N h1" using Cons.prems(1) k1 by (rule closedBelow_keeps)
  have len1: "length h \<le> length h1" using fr by (simp add: keeps_def)
  show ?case
  proof (cases r1)
    case (Throw e)
    with call show ?thesis by simp
  next
    case (Done jv)
    then have stk1: "stk1 = stk" using fr by simp
    show ?thesis
    proof (cases "\<not> strictEq (getSlot h orig sl) jv")
      case False
      have "ob < length h1 \<and> (ob = orig \<or> N \<le> ob)" using Cons.prems(3) len1 by auto
      from Cons.IH [OF c1 Cons.prems(2) this] call Done False stk1 show ?thesis by simp
    next
      case True
      note changed = this
      show ?thesis
      proof (cases "ob = orig")
        case True
        let ?h2 = "setSlot (h1 @ [copyOf (h1 ! ob)]) (length h1) sl jv"
        have "keeps N h1 ?h2"
          using N len1 by (auto intro!: keeps_trans [OF keeps_append keeps_setSlot])
        then have c2: "closedBelow N ?h2" using c1 by (auto intro: closedBelow_keeps)
        have "length h1 < length ?h2 \<and> (length h1 = orig \<or> N \<le> length h1)"
          using N len1 by (simp add: length_setSlot)
        from Cons.IH [OF c2 Cons.prems(2) this] call Done True stk1 changed
        show ?thesis by simp
      next
        case False
        let ?h2 = "setSlot h1 ob sl jv"
        from False Cons.prems(3) have ob: "N \<le> ob" "ob < length h" by auto
        have "keeps N h1 ?h2" using ob by (auto intro: keeps_setSlot)
        then have c2: "closedBelow N ?h2" using c1 by (auto intro: closedBelow_keeps)
        have "ob < length ?h2 \<and> (ob = orig \<or> N \<le> ob)"
          using ob len1 by (simp add: length_setSlot)
        from Cons.IH [OF c2 Cons.prems(2) this] call Done False stk1 changed
        show ?thesis by simp
      qed
    qed
  qed
qed




lemma safeJsonObject_NoneD:
  assumes "safeJsonObject (Suc n) v k stk h = None"
  obtains orig where "v \<noteq> JUndefined" "v \<noteq> JNull" "callToJSON h v k = JRef orig" "v \<notin> set stk"
    "length h \<le> orig \<or>
       slotLoop (safeJsonObject n) (slots (body (h ! orig))) orig orig (stk @ [v]) h = None"
proof -
  from assms have 1: "v \<noteq> JUndefined" "v \<noteq> JNull"
    by (auto simp: safeJsonObject_Suc)
  show ?thesis
  proof (cases "callToJSON h v k")
    case (JRef orig)
    from assms 1 have 2: "v \<notin> set stk"
      by (simp add: safeJsonObject_Suc JRef split: if_splits)
    from assms 1 2 have "length h \<le> orig \<or>
       slotLoop (safeJsonObject n) (slots (body (h ! orig))) orig orig (stk @ [v]) h = None"
      by (cases "slotLoop (safeJsonObject n) (slots (body (h ! orig))) orig orig (stk @ [v]) h")
         (auto simp: safeJsonObject_Suc JRef split: if_splits outcome.splits)
    with JRef 1 2 that show ?thesis by blast
  next
    case JUndefined with assms 1 show ?thesis by (simp add: safeJsonObject_Suc)
  next
    case JNull with assms 1 show ?thesis by (simp add: safeJsonObject_Suc split: if_splits)
  next
    case (JBool b) with assms 1 show ?thesis by (simp add: safeJsonObject_Suc)
  next
    case (JNum i) with assms 1 show ?thesis by (simp add: safeJsonObject_Suc)
  next
    case JNaN with assms 1 show ?thesis by (simp add: safeJsonObject_Suc)
  next
    case (JStr x) with assms 1 show ?thesis by (simp add: safeJsonObject_Suc)
  next
    case (JBigInt i) with assms 1 show ?thesis by (simp add: safeJsonObject_Suc)
  qed
qed

lemma safeJsonObject_total:
  "closedBelow N h \<Longrightarrow> refOK N v \<Longrightarrow> card (unvisited N stk) < n \<Longrightarrow>
     safeJsonObject n v k stk h \<noteq> None"
proof (induction n arbitrary: v k stk h)
  case 0
  then show ?case by simp
next
  case (Suc n)
  show ?case
  proof
    assume "safeJsonObject (Suc n) v k stk h = None"
    then obtain orig where o: "v \<noteq> JUndefined" "v \<noteq> JNull" "callToJSON h v k = JRef orig"
      "v \<notin> set stk"
      and bad: "length h \<le> orig \<or>
       slotLoop (safeJsonObject n) (slots (body (h ! orig))) orig orig (stk @ [v]) h = None"
      by (rule safeJsonObject_NoneD)
    have N: "N \<le> length h" using Suc.prems(1) by (simp add: closedBelow_def)
    from refOK_callToJSON [OF Suc.prems(1,2), of k] o have lt: "orig < N"
      by (simp add: refOK_def)
    from o obtain a where v: "v = JRef a"
      by (cases v) (auto simp: callToJSON_def)
    with Suc.prems(2) have a: "a < N" by (simp add: refOK_def)
    have "card (unvisited N (stk @ [v])) < card (unvisited N stk)"
      using unvisited_push [OF a, of stk] o(4) v by simp
    with Suc.prems(3) have small: "card (unvisited N (stk @ [v])) < n" by simp
    have "slotLoop (safeJsonObject n) (slots (body (h ! orig))) orig orig (stk @ [v]) h \<noteq> None"
    proof (rule slotLoop_total [OF safeJsonObject_framed _ Suc.prems(1) lt])
      show "closedBelow N h' \<Longrightarrow> refOK N w \<Longrightarrow> safeJsonObject n w k' (stk @ [v]) h' \<noteq> None"
        for w k' h'
        using small by (rule Suc.IH [rotated 2])
      show "orig < length h \<and> (orig = orig \<or> N \<le> orig)" using lt N by simp
    qed
    with bad lt N show False by simp
  qed
qed

text \<open>
  A heap is \<open>calm\<close> below \<open>N\<close> when no \<open>toJSON\<close> method of an object below \<open>N\<close>
  returns \<open>null\<close>. The one throw of the sanitizer is the \<open>TypeError\<close> of
  \<open>Object.keys(null)\<close> after a \<open>toJSON\<close> that returned \<open>null\<close>: on a calm heap a
  call that ends, ends with a value.
\<close>

definition calm :: "nat \<Rightarrow> heap \<Rightarrow> bool" where
  "calm N h =
     (\<forall>a<N. \<forall>how f h' k. toJSON (h ! a) = Some (how, f) \<and> keeps N h h' \<longrightarrow>
        f (map body h') a k \<noteq> JNull)"

lemma calmD:
  "calm N h \<Longrightarrow> a < N \<Longrightarrow> toJSON (h ! a) = Some (how, f) \<Longrightarrow> keeps N h h' \<Longrightarrow>
     f (map body h') a k \<noteq> JNull"
  unfolding calm_def by blast

lemma calm_keeps:
  assumes c: "calm N h" and k: "keeps N h h'"
  shows "calm N h'"
  unfolding calm_def
proof (intro allI impI)
  fix a how f h'' kk
  assume a: "a < N" and t: "toJSON (h' ! a) = Some (how, f) \<and> keeps N h' h''"
  from k a have "h' ! a = h ! a" by (simp add: keeps_def)
  with t have t': "toJSON (h ! a) = Some (how, f)" by simp
  from k t have "keeps N h h''" by (blast intro: keeps_trans)
  with c a t' show "f (map body h'') a kk \<noteq> JNull" by (rule calmD)
qed

lemma callToJSON_calm:
  assumes c: "calm N h" and v: "refOK N v" and nn: "v \<noteq> JNull"
  shows "callToJSON h v k \<noteq> JNull"
proof (cases v)
  case (JRef a)
  with v have a: "a < N" by simp
  show ?thesis
  proof (cases "toJSON (h ! a)")
    case None
    with JRef show ?thesis by (simp add: callToJSON_def)
  next
    case (Some m)
    obtain how f where m: "m = (how, f)" by (cases m)
    from calmD [OF c a Some [unfolded m] keeps_refl, of k]
    show ?thesis using JRef Some m by (simp add: callToJSON_def)
  qed
qed (use nn in \<open>simp_all add: callToJSON_def\<close>)

lemma slotLoop_calm:
  assumes f: "framed f"
    and nt: "\<And>v k h r stk' h'. closedBelow N h \<Longrightarrow> calm N h \<Longrightarrow> refOK N v \<Longrightarrow>
               f v k stk h = Some (r, stk', h') \<Longrightarrow> \<exists>x. r = Done x"
  shows "slotLoop f sls orig ob stk h = Some (r, stk', h') \<Longrightarrow> closedBelow N h \<Longrightarrow> calm N h \<Longrightarrow>
           orig < N \<Longrightarrow> ob < length h \<and> (ob = orig \<or> N \<le> ob) \<Longrightarrow> \<exists>x. r = Done x"
proof (induction sls arbitrary: ob h)
  case Nil
  then show ?case by auto
next
  case (Cons sl sls)
  note run = Cons.prems(1) and c = Cons.prems(2) and q = Cons.prems(3)
  have N: "N \<le> length h" using c by (simp add: closedBelow_def)
  from run obtain r1 stk1 h1 where
    call: "f (getSlot h orig sl) (slotKey sl) stk h = Some (r1, stk1, h1)"
    by (cases "f (getSlot h orig sl) (slotKey sl) stk h") auto
  from nt [OF c q refOK_getSlot [OF c Cons.prems(4)] call] obtain jv where r1: "r1 = Done jv" ..
  note fr = framedD [OF f call]
  from fr r1 have stk1: "stk1 = stk" by simp
  have k1: "keeps N h h1" using fr N by (auto intro: keeps_mono)
  have c1: "closedBelow N h1" using c k1 by (rule closedBelow_keeps)
  have q1: "calm N h1" using q k1 by (rule calm_keeps)
  have len1: "length h \<le> length h1" using fr by (simp add: keeps_def)
  show ?case
  proof (cases "strictEq (getSlot h orig sl) jv")
    case True
    with run call r1 stk1 have rest: "slotLoop f sls orig ob stk h1 = Some (r, stk', h')" by simp
    have "ob < length h1 \<and> (ob = orig \<or> N \<le> ob)" using Cons.prems(5) len1 by auto
    from Cons.IH [OF rest c1 q1 Cons.prems(4) this] show ?thesis .
  next
    case False
    show ?thesis
    proof (cases "ob = orig")
      case True
      let ?h2 = "setSlot (h1 @ [copyOf (h1 ! ob)]) (length h1) sl jv"
      from run call r1 stk1 False True
      have rest: "slotLoop f sls orig (length h1) stk ?h2 = Some (r, stk', h')" by simp
      have k2: "keeps N h1 ?h2"
        using N len1 by (auto intro!: keeps_trans [OF keeps_append keeps_setSlot])
      have "length h1 < length ?h2 \<and> (length h1 = orig \<or> N \<le> length h1)"
        using N len1 by (simp add: length_setSlot)
      from Cons.IH [OF rest closedBelow_keeps [OF c1 k2] calm_keeps [OF q1 k2] Cons.prems(4) this]
      show ?thesis .
    next
      case ne: False
      let ?h2 = "setSlot h1 ob sl jv"
      from run call r1 stk1 False ne
      have rest: "slotLoop f sls orig ob stk ?h2 = Some (r, stk', h')" by simp
      from ne Cons.prems(5) have ob: "N \<le> ob" "ob < length h" by auto
      have k2: "keeps N h1 ?h2" using ob by (auto intro: keeps_setSlot)
      have "ob < length ?h2 \<and> (ob = orig \<or> N \<le> ob)"
        using ob len1 by (simp add: length_setSlot)
      from Cons.IH [OF rest closedBelow_keeps [OF c1 k2] calm_keeps [OF q1 k2] Cons.prems(4) this]
      show ?thesis .
    qed
  qed
qed

lemma safeJsonObject_calm:
  "safeJsonObject n v k stk h = Some (r, stk', h') \<Longrightarrow> closedBelow N h \<Longrightarrow> calm N h \<Longrightarrow>
     refOK N v \<Longrightarrow> \<exists>x. r = Done x"
proof (induction n arbitrary: v k stk h r stk' h')
  case 0
  then show ?case by simp
next
  case (Suc n)
  note run = Suc.prems(1) and c = Suc.prems(2) and q = Suc.prems(3) and v = Suc.prems(4)
  show ?case
  proof (cases "v = JUndefined \<or> v = JNull")
    case True
    with run show ?thesis by (auto simp: safeJsonObject_Suc)
  next
    case nn: False
    then have "v \<noteq> JNull" by simp
    from callToJSON_calm [OF q v this, of k] have cn: "callToJSON h v k \<noteq> JNull" .
    show ?thesis
    proof (cases "callToJSON h v k")
      case (JRef orig)
      from refOK_callToJSON [OF c v, of k] JRef have lt: "orig < N" by simp
      have N: "N \<le> length h" using c by (simp add: closedBelow_def)
      show ?thesis
      proof (cases "v \<in> set stk")
        case True
        with run nn JRef show ?thesis by (auto simp: safeJsonObject_Suc)
      next
        case False
        from run nn JRef False lt N obtain r1 stk1 where
          loop: "slotLoop (safeJsonObject n) (slots (body (h ! orig))) orig orig (stk @ [v]) h
                   = Some (r1, stk1, h')"
          and res: "(case r1 of Done ob' \<Rightarrow> r = Done (JRef ob') | Throw e \<Rightarrow> r = Throw e)"
          by (cases "slotLoop (safeJsonObject n) (slots (body (h ! orig))) orig orig (stk @ [v]) h")
             (auto simp: safeJsonObject_Suc split: outcome.splits)
        have "\<exists>x. r1 = Done x"
        proof (rule slotLoop_calm [OF safeJsonObject_framed _ loop c q lt])
          show "closedBelow N h1 \<Longrightarrow> calm N h1 \<Longrightarrow> refOK N w \<Longrightarrow>
                  safeJsonObject n w k1 (stk @ [v]) h1 = Some (r2, stk2, h2) \<Longrightarrow> \<exists>x. r2 = Done x"
            for w k1 h1 r2 stk2 h2
            by (rule Suc.IH)
          show "orig < length h \<and> (orig = orig \<or> N \<le> orig)" using lt N by simp
        qed
        with res show ?thesis by auto
      qed
    next
      case JNull
      with cn show ?thesis by simp
    qed (use run nn in \<open>auto simp: safeJsonObject_Suc\<close>)
  qed
qed

text \<open>A call \<open>Utils.safeJsonObject(value)\<close> on a value of a heap closed below \<open>N\<close>
  ends, keeps the objects below \<open>N\<close>, and ends with a value if the heap is calm.\<close>

lemma safeJson_run:
  assumes c: "closedBelow N h" and v: "refOK N v"
  shows "\<exists>r h'. safeJson h v = Some (r, h') \<and> keeps N h h' \<and> (calm N h \<longrightarrow> (\<exists>x. r = Done x))"
proof -
  have N: "N \<le> length h" using c by (simp add: closedBelow_def)
  then have "card (unvisited N []) < Suc (length h)" by (simp add: unvisited_def)
  with c v have "safeJsonObject (Suc (length h)) v [] [] h \<noteq> None"
    by (rule safeJsonObject_total)
  then obtain r stk' h' where run: "safeJsonObject (Suc (length h)) v [] [] h = Some (r, stk', h')"
    by (cases "safeJsonObject (Suc (length h)) v [] [] h") auto
  from framedD [OF safeJsonObject_framed run] N have k: "keeps N h h'"
    by (auto intro: keeps_mono)
  have "calm N h \<longrightarrow> (\<exists>x. r = Done x)"
    using safeJsonObject_calm [OF run c _ v] by blast
  with run k show ?thesis by (simp add: safeJson_def)
qed

subsection \<open>No mutation of the input\<close>

lemma safeJsonObject_result_ref:
  assumes run: "safeJsonObject n v k stk h = Some (Done (JRef ob'), stk', h')"
  shows "ob' < length h' \<and> (callToJSON h v k = JRef ob' \<or> length h \<le> ob')"
proof (cases n)
  case 0
  with run show ?thesis by simp
next
  case (Suc m)
  have nn: "v \<noteq> JUndefined" "v \<noteq> JNull"
    using run Suc by (auto simp: safeJsonObject_Suc)
  show ?thesis
  proof (cases "callToJSON h v k")
    case (JRef orig)
    have ns: "v \<notin> set stk"
      using run Suc nn JRef by (auto simp: safeJsonObject_Suc circular_def split: if_splits)
    with run Suc nn JRef have lt: "orig < length h"
      by (auto simp: safeJsonObject_Suc split: if_splits)
    from run Suc nn JRef ns lt obtain stk1 where
      loop: "slotLoop (safeJsonObject m) (slots (body (h ! orig))) orig orig (stk @ [v]) h
               = Some (Done ob', stk1, h')"
      by (auto simp: safeJsonObject_Suc split: option.splits outcome.splits)
    from slotLoop_framed [OF safeJsonObject_framed loop, of "length h"] lt JRef
    show ?thesis by (auto simp: copiesAbove_length)
  qed (use run Suc nn in \<open>auto simp: safeJsonObject_Suc circular_def split: if_splits\<close>)
qed

text \<open>
  Claim C10. Whenever a call of \<open>safeJsonObject\<close> ends, by a value or by a throw,
  every object that existed before the call is unchanged (the input and everything
  reachable from it included), and the objects the call has added are copies, none of
  them an \<open>Error\<close>. A container it returns is either the very container it was given
  (after \<open>toJSON\<close>), which is unchanged, or a copy allocated by the call: a replaced
  child is never written into the input container.
\<close>

theorem safeJsonObject_keeps_input:
  assumes run: "safeJsonObject n v k stk h = Some (r, stk', h')"
  shows "keeps (length h) h h'
         \<and> copiesAbove (length h) h'
         \<and> (\<forall>ob'. r = Done (JRef ob') \<longrightarrow>
               ob' < length h' \<and> (callToJSON h v k = JRef ob' \<or> length h \<le> ob'))"
  using framedD [OF safeJsonObject_framed run] safeJsonObject_result_ref run
  by blast

text \<open>An object with a self-reference and a bigint: both children are replaced, in a
  copy.\<close>

definition bigHeap :: heap where
  "bigHeap =
     [\<lparr> body = Object [(''a'', JRef 0), (''b'', JBigInt 5)], toJSON = None,
        ctor = Some ''Object'', err = None \<rparr>]"

lemma bigHeap_run:
  "safeJsonObject 2 (JRef 0) [] [] bigHeap =
     Some (Done (JRef 1), [],
           bigHeap @ [\<lparr> body = Object [(''a'', JStr ''[Circular]''), (''b'', JStr ''5n'')],
                        toJSON = None, ctor = None, err = None \<rparr>])"
  by (simp add: eval_nat_numeral safeJsonObject_Suc bigHeap_def callToJSON_def objectGet_def
        objectSet_def copyOf_def circular_def show_int_def show_nat.simps digit_char_def
        strictEq_def)


theorem safeJsonObject_keeps_input_witness:
  "safeJsonObject 2 (JRef 0) [] [] bigHeap =
     Some (Done (JRef 1), [],
           bigHeap @ [\<lparr> body = Object [(''a'', JStr ''[Circular]''), (''b'', JStr ''5n'')],
                        toJSON = None, ctor = None, err = None \<rparr>])
   \<and> keeps (length bigHeap) bigHeap
        (bigHeap @ [\<lparr> body = Object [(''a'', JStr ''[Circular]''), (''b'', JStr ''5n'')],
                        toJSON = None, ctor = None, err = None \<rparr>])
   \<and> (bigHeap @ [\<lparr> body = Object [(''a'', JStr ''[Circular]''), (''b'', JStr ''5n'')],
                        toJSON = None, ctor = None, err = None \<rparr>]) ! 0 = bigHeap ! 0
   \<and> length bigHeap \<le> 1"
proof -
  note k = safeJsonObject_keeps_input [OF bigHeap_run]
  have l: "length bigHeap = 1" by (simp add: bigHeap_def)
  from k have "keeps (length bigHeap) bigHeap
        (bigHeap @ [\<lparr> body = Object [(''a'', JStr ''[Circular]''), (''b'', JStr ''5n'')],
                        toJSON = None, ctor = None, err = None \<rparr>])" by blast
  then show ?thesis using bigHeap_run l by (simp add: keeps_def)
qed

text \<open>The object \<open>{ n: 1n, toJSON() { return this; } }\<close>: the method is an own
  enumerable property, so the copy that holds the rendered bigint has it too.\<close>

definition ownHeap :: heap where
  "ownHeap =
     [\<lparr> body = Object [(''n'', JBigInt 1)], toJSON = Some (OwnProperty, \<lambda>bs self k. JRef self),
        ctor = Some ''Object'', err = None \<rparr>]"

lemma ownHeap_run:
  "safeJson ownHeap (JRef 0) =
     Some (Done (JRef 1),
           ownHeap @ [\<lparr> body = Object [(''n'', JStr ''1n'')],
                        toJSON = Some (OwnProperty, \<lambda>bs self k. JRef self),
                        ctor = None, err = None \<rparr>])"
  by (simp add: safeJson_def eval_nat_numeral safeJsonObject_Suc ownHeap_def callToJSON_def
        objectGet_def objectSet_def copyOf_def show_int_def show_nat.simps digit_char_def
        strictEq_def)

subsection \<open>Cycle safety\<close>













section \<open>The level of the response line\<close>

text \<open>
  The lines a run of a handler hands to the response logger, as level and message: the
  records added to the log between the state before and the state after. A run is quiet
  when it adds no record for the response logger. \<open>statusLevel\<close> is the default level
  as the claim words it.
\<close>

definition responseLines :: "hstate \<Rightarrow> hstate \<Rightarrow> (string \<times> string) list" where
  "responseLines s s' =
     map (\<lambda>c. (lc_level c, lc_msg c))
       (filter (\<lambda>c. lc_logger c = ResponseLogger) (drop (length (log s)) (log s')))"

definition statusLevel :: "int \<Rightarrow> string" where
  "statusLevel st = (if st < 400 then ''info'' else if st < 500 then ''warn'' else ''error'')"

definition quietExt :: "hstate \<Rightarrow> hstate \<Rightarrow> bool" where
  "quietExt s s' = (\<exists>X. log s' = log s @ X \<and> filter (\<lambda>c. lc_logger c = ResponseLogger) X = [])"

lemma quietExt_refl: "quietExt s s"
  by (simp add: quietExt_def)

lemma quietExt_trans: "quietExt s s1 \<Longrightarrow> quietExt s1 s2 \<Longrightarrow> quietExt s s2"
  by (auto simp: quietExt_def)

lemma quietExt_lines: "quietExt s s' \<Longrightarrow> responseLines s s' = []"
  by (auto simp: quietExt_def responseLines_def)

lemma callLogger_event_quiet:
  "lid lg = EventLogger \<Longrightarrow> callLogger lg lvl pl m s = (r, s1) \<Longrightarrow> quietExt s s1"
  by (auto simp: callLogger_def quietExt_def split: loggerMethod.splits)

lemma callLogger_heap: "callLogger lg lvl pl m s = (r, s1) \<Longrightarrow> heap s1 = heap s"
  by (auto simp: callLogger_def split: loggerMethod.splits)

lemma logResponseError_quiet:
  "lid lg = EventLogger \<Longrightarrow> logResponseError lg resp ident s = (r, s1) \<Longrightarrow> quietExt s s1"
  by (auto simp: logResponseError_def Let_def quietExt_refl dest: callLogger_event_quiet split: if_splits)

lemma logResponseError_heap: "logResponseError lg resp ident s = (r, s1) \<Longrightarrow> heap s1 = heap s"
  by (auto simp: logResponseError_def Let_def dest: callLogger_heap split: if_splits)

lemma logResponseError_writes:
  "meth lg ''trace'' = Writes \<Longrightarrow> logResponseError lg resp ident s = (r, s1) \<Longrightarrow> r = Done ()"
  by (auto simp: logResponseError_def Let_def callLogger_def split: if_splits)

lemma callLogger_response_line:
  "lid lg = ResponseLogger \<Longrightarrow> callLogger lg lvl pl m s1 = (Done u, s') \<Longrightarrow> quietExt s s1
     \<Longrightarrow> responseLines s s' = [(lvl, m)]"
  by (auto simp: callLogger_def quietExt_def responseLines_def split: loggerMethod.splits)

text \<open>
  The steps of the handler before the line is written. A step is in order
  (\<open>stepOK N h0 C s res\<close>) when it ends, keeps the objects below \<open>N\<close> of the heap
  \<open>h0\<close> the handler started with, hands nothing to the response logger, and ends with
  a value under the condition \<open>C\<close>. A run writes its line in order
  (\<open>lineOK C s0 ls res\<close>) when it ends, has handed the lines \<open>ls\<close> to the response
  logger if it has ended with a value, and does end with a value under the condition
  \<open>C\<close>.
\<close>

definition stepOK :: "nat \<Rightarrow> heap \<Rightarrow> bool \<Rightarrow> hstate \<Rightarrow> ('a outcome \<times> hstate) option \<Rightarrow> bool" where
  "stepOK N h0 C s res =
     (\<exists>r s'. res = Some (r, s') \<and> keeps N h0 (heap s') \<and> quietExt s s' \<and> (C \<longrightarrow> (\<exists>x. r = Done x)))"

definition lineOK ::
    "bool \<Rightarrow> hstate \<Rightarrow> (string \<times> string) list \<Rightarrow> (unit outcome \<times> hstate) option \<Rightarrow> bool" where
  "lineOK C s0 ls res =
     (\<exists>r s'. res = Some (r, s') \<and> (\<forall>u. r = Done u \<longrightarrow> responseLines s0 s' = ls) \<and> (C \<longrightarrow> r = Done ()))"

lemma stepOK_Done: "keeps N h0 (heap s) \<Longrightarrow> stepOK N h0 C s (Some (Done a, s))"
  by (simp add: stepOK_def quietExt_refl)

lemma stepOK_andThen:
  assumes first: "stepOK N h0 C s r0"
    and rest: "\<And>a s1. keeps N h0 (heap s1) \<Longrightarrow> quietExt s s1 \<Longrightarrow> stepOK N h0 C s1 (f a s1)"
  shows "stepOK N h0 C s (andThen r0 f)"
proof -
  from first obtain r s1 where r0: "r0 = Some (r, s1)" and k: "keeps N h0 (heap s1)"
    and q: "quietExt s s1" and d: "C \<longrightarrow> (\<exists>x. r = Done x)"
    by (auto simp: stepOK_def)
  show ?thesis
  proof (cases r)
    case (Throw e)
    with r0 k q d show ?thesis by (auto simp: andThen_def stepOK_def)
  next
    case (Done a)
    from rest [OF k q, of a] obtain r2 s2 where f: "f a s1 = Some (r2, s2)"
      and k2: "keeps N h0 (heap s2)" and q2: "quietExt s1 s2" and d2: "C \<longrightarrow> (\<exists>x. r2 = Done x)"
      by (auto simp: stepOK_def)
    from q q2 have "quietExt s s2" by (rule quietExt_trans)
    with r0 Done f k2 d2 show ?thesis by (auto simp: andThen_def stepOK_def)
  qed
qed

lemma lineOK_andThen:
  assumes first: "stepOK N h0 C s r0" and q0: "quietExt s0 s"
    and rest: "\<And>a s1. keeps N h0 (heap s1) \<Longrightarrow> quietExt s0 s1 \<Longrightarrow> lineOK C s0 ls (f a s1)"
  shows "lineOK C s0 ls (andThen r0 f)"
proof -
  from first obtain r s1 where r0: "r0 = Some (r, s1)" and k: "keeps N h0 (heap s1)"
    and q: "quietExt s s1" and d: "C \<longrightarrow> (\<exists>x. r = Done x)"
    by (auto simp: stepOK_def)
  show ?thesis
  proof (cases r)
    case (Throw e)
    with r0 d show ?thesis by (auto simp: andThen_def lineOK_def)
  next
    case (Done a)
    from q0 q have "quietExt s0 s1" by (rule quietExt_trans)
    from rest [OF k this, of a] r0 Done show ?thesis by (simp add: andThen_def)
  qed
qed

lemma lineOK_callLogger:
  assumes "lid lg = ResponseLogger" and q: "quietExt s0 s" and w: "C \<Longrightarrow> meth lg lvl = Writes"
  shows "lineOK C s0 [(lvl, m)] (Some (callLogger lg lvl pl m s))"
proof -
  obtain r s' where c: "callLogger lg lvl pl m s = (r, s')" by (cases "callLogger lg lvl pl m s")
  have 1: "\<forall>u. r = Done u \<longrightarrow> responseLines s0 s' = [(lvl, m)]"
    using callLogger_response_line [OF assms(1) _ q] c by auto
  have 2: "C \<longrightarrow> r = Done ()"
    using w c by (auto simp: callLogger_def)
  from c 1 2 show ?thesis by (simp add: lineOK_def)
qed

lemma onHeap_safeJson_ok:
  assumes c: "closedBelow N h0" and k: "keeps N h0 (heap s)" and v: "refOK N v"
    and q: "C \<Longrightarrow> calm N h0"
  shows "stepOK N h0 C s (onHeap (\<lambda>h. safeJson h v) s)"
proof -
  have c1: "closedBelow N (heap s)" using c k by (rule closedBelow_keeps)
  from safeJson_run [OF c1 v] obtain r h' where run: "safeJson (heap s) v = Some (r, h')"
    and k1: "keeps N (heap s) h'" and d: "calm N (heap s) \<longrightarrow> (\<exists>x. r = Done x)" by blast
  from k k1 have k2: "keeps N h0 h'" by (rule keeps_trans)
  have "C \<longrightarrow> (\<exists>x. r = Done x)" using d q calm_keeps [OF _ k] by blast
  with run k2 show ?thesis by (simp add: stepOK_def onHeap_def quietExt_def)
qed

lemma applyUserPropsLoop_run:
  "closedBelow N h \<Longrightarrow> \<forall>p \<in> set (map snd entries). refOK N (reach rq p) \<Longrightarrow>
     \<exists>r h'. applyUserPropsLoop rq ob entries h = Some (r, h') \<and> keeps N h h'
            \<and> (calm N h \<longrightarrow> (\<exists>x. r = Done x))"
proof (induction entries arbitrary: ob h)
  case Nil
  then show ?case by (simp add: keeps_refl)
next
  case (Cons e entries)
  obtain key path where e: "e = (key, path)" by (cases e)
  from Cons.prems(2) e have v: "refOK N (reach rq path)"
    and rest: "\<forall>p \<in> set (map snd entries). refOK N (reach rq p)" by simp_all
  show ?case
  proof (cases "reach rq path \<noteq> JUndefined \<and> reach rq path \<noteq> JNull")
    case False
    with Cons.IH [OF Cons.prems(1) rest, of ob] e show ?thesis by auto
  next
    case True
    from safeJson_run [OF Cons.prems(1) v] obtain r h1 where
      run: "safeJson h (reach rq path) = Some (r, h1)" and k1: "keeps N h h1"
      and d: "calm N h \<longrightarrow> (\<exists>x. r = Done x)" by blast
    show ?thesis
    proof (cases r)
      case (Throw x)
      with run k1 d True e show ?thesis by auto
    next
      case (Done w)
      from Cons.IH [OF closedBelow_keeps [OF Cons.prems(1) k1] rest, of "fieldSet ob key (FVal w)"]
      obtain r2 h2 where l: "applyUserPropsLoop rq (fieldSet ob key (FVal w)) entries h1 = Some (r2, h2)"
        and k2: "keeps N h1 h2" and d2: "calm N h1 \<longrightarrow> (\<exists>x. r2 = Done x)" by blast
      from k1 k2 have "keeps N h h2" by (rule keeps_trans)
      moreover have "calm N h \<longrightarrow> (\<exists>x. r2 = Done x)" using d2 calm_keeps [OF _ k1] by blast
      ultimately show ?thesis using run Done l True e by simp
    qed
  qed
qed

lemma applyUserProps_ok:
  assumes c: "closedBelow N h0" and k: "keeps N h0 (heap s)"
    and v: "\<forall>p \<in> set (map snd (case m of None \<Rightarrow> [] | Some entries \<Rightarrow> entries)). refOK N (reach rq p)"
    and q: "C \<Longrightarrow> calm N h0"
  shows "stepOK N h0 C s (onHeap (applyUserProps rq ob m) s)"
proof (cases m)
  case None
  with k show ?thesis by (simp add: applyUserProps_def onHeap_def stepOK_def quietExt_def)
next
  case (Some entries)
  have c1: "closedBelow N (heap s)" using c k by (rule closedBelow_keeps)
  from v Some have "\<forall>p \<in> set (map snd entries). refOK N (reach rq p)" by simp
  from applyUserPropsLoop_run [OF c1 this, of ob] obtain r h' where
    run: "applyUserPropsLoop rq ob entries (heap s) = Some (r, h')"
    and k1: "keeps N (heap s) h'" and d: "calm N (heap s) \<longrightarrow> (\<exists>x. r = Done x)" by blast
  from k k1 have k2: "keeps N h0 h'" by (rule keeps_trans)
  have "C \<longrightarrow> (\<exists>x. r = Done x)" using d q calm_keeps [OF _ k] by blast
  with run k2 Some show ?thesis
    by (simp add: applyUserProps_def stepOK_def onHeap_def quietExt_def)
qed

text \<open>What the handler reads of an error below \<open>N\<close> is the same in every heap that
  keeps the objects below \<open>N\<close>.\<close>

lemma errorReads_keeps:
  assumes k: "keeps N h0 h" and v: "refOK N v"
  shows "ctorNameOf h v = ctorNameOf h0 v" "messageOf h v = messageOf h0 v" "dataOf h v = dataOf h0 v"
proof -
  have eq: "\<And>a. v = JRef a \<Longrightarrow> h ! a = h0 ! a" using k v by (simp add: keeps_def)
  show "ctorNameOf h v = ctorNameOf h0 v"
    using eq by (cases v) (simp_all add: ctorNameOf_def split: option.splits)
  show "messageOf h v = messageOf h0 v"
    using eq by (cases v) (simp_all add: messageOf_def objectGet_def split: option.splits)
  show "dataOf h v = dataOf h0 v"
    using eq by (cases v) (simp_all add: dataOf_def objectGet_def split: option.splits)
qed

lemma errorFields_ok:
  assumes c: "closedBelow N h0" and k: "keeps N h0 (heap s)"
    and e: "lid (eventLogger np) = EventLogger"
    and v: "refOK N (rerror resp)" and d: "refOK N (dataOf h0 (rerror resp))"
    and q: "C \<Longrightarrow> calm N h0"
    and w: "C \<Longrightarrow> meth (eventLogger np) ''trace'' = Writes"
    and rd: "C \<Longrightarrow> truthy (rerror resp) \<Longrightarrow>
              ctorNameOf h0 (rerror resp) \<noteq> None \<and> (\<exists>m. toStr os (messageOf h0 (rerror resp)) = Done m)"
  shows "stepOK N h0 C s (errorFields os np rq resp res0 s)"
proof (cases "truthy (rerror resp)")
  case False
  with k show ?thesis by (simp add: errorFields_def stepOK_Done)
next
  case True
  note reads = errorReads_keeps [OF k v]
  show ?thesis
  proof (cases "ctorNameOf h0 (rerror resp)")
    case None
    with True k rd show ?thesis
      by (auto simp: errorFields_def reads stepOK_def quietExt_refl)
  next
    case (Some nm)
    show ?thesis
    proof (cases "toStr os (messageOf h0 (rerror resp))")
      case (Throw x)
      with True Some k rd show ?thesis
        by (auto simp: errorFields_def reads stepOK_def quietExt_refl)
    next
      case (Done m)
      let ?res1 = "fieldSet res0 ''reason'' (FVal (JStr (nm @ '': '' @ m)))"
      let ?data = "dataOf h0 (rerror resp)"
      have log: "stepOK N h0 C s4
                   (case logResponseError (eventLogger np) resp (infoId rq) s4 of
                      (Throw e, s5) \<Rightarrow> Some (Throw e, s5)
                    | (Done u, s5) \<Rightarrow> Some (Done res2, s5))"
        if k4: "keeps N h0 (heap s4)" for res2 :: "(string \<times> field) list" and s4 :: hstate
      proof -
        obtain r s5 where l: "logResponseError (eventLogger np) resp (infoId rq) s4 = (r, s5)"
          by (cases "logResponseError (eventLogger np) resp (infoId rq) s4")
        from logResponseError_heap [OF l] k4 have k5: "keeps N h0 (heap s5)" by simp
        from logResponseError_quiet [OF e l] have q5: "quietExt s4 s5" .
        have "C \<longrightarrow> r = Done ()" using w logResponseError_writes [OF _ l] by blast
        with l k5 q5 show ?thesis by (cases r) (auto simp: stepOK_def)
      qed
      have unfold: "errorFields os np rq resp res0 s =
              andThen
                 (if truthy ?data then
                    andThen (onHeap (\<lambda>h. safeJson h ?data) s)
                      (\<lambda>d s3. Some (Done (fieldSet ?res1 ''data'' (FVal d)), s3))
                  else Some (Done ?res1, s))
                 (\<lambda>res2 s4.
                    (case logResponseError (eventLogger np) resp (infoId rq) s4 of
                       (Throw e, s5) \<Rightarrow> Some (Throw e, s5)
                     | (Done u, s5) \<Rightarrow> Some (Done res2, s5)))"
        using True Some Done by (simp add: errorFields_def reads Let_def)
      show ?thesis
        unfolding unfold
      proof (rule stepOK_andThen)
        show "stepOK N h0 C s
                (if truthy ?data then
                   andThen (onHeap (\<lambda>h. safeJson h ?data) s)
                     (\<lambda>d s3. Some (Done (fieldSet ?res1 ''data'' (FVal d)), s3))
                 else Some (Done ?res1, s))"
        proof (cases "truthy ?data")
          case False
          with k show ?thesis by (simp add: stepOK_Done)
        next
          case True
          have "stepOK N h0 C s
                  (andThen (onHeap (\<lambda>h. safeJson h ?data) s)
                     (\<lambda>d s3. Some (Done (fieldSet ?res1 ''data'' (FVal d)), s3)))"
            by (rule stepOK_andThen [OF onHeap_safeJson_ok [OF c k d q]]) (simp_all add: stepOK_Done)
          with True show ?thesis by simp
        qed
      next
        fix res2 :: "(string \<times> field) list" and s4 :: hstate
        assume "keeps N h0 (heap s4)"
        then show "stepOK N h0 C s4
                     (case logResponseError (eventLogger np) resp (infoId rq) s4 of
                        (Throw e, s5) \<Rightarrow> Some (Throw e, s5)
                      | (Done u, s5) \<Rightarrow> Some (Done res2, s5))"
          by (rule log)
      qed
    qed
  qed
qed

text \<open>
  The request refers below \<open>N\<close> when every value the handler passes to the sanitizer
  does: the credentials, the values that the paths of the route's property maps reach,
  and the response error with its data. A run is \<open>smooth\<close> when nothing in it can
  throw: no \<open>toJSON\<close> returns \<open>null\<close>, the gate returns, the response logger has a
  method for the level of the line and the event logger one for \<open>trace\<close>, and a
  response error has a constructor and a message that converts to a string.
\<close>

definition userPaths :: "request \<Rightarrow> string list list" where
  "userPaths rq =
     map snd (case reqProps (route rq) of None \<Rightarrow> [] | Some entries \<Rightarrow> entries) @
     map snd (case resProps (route rq) of None \<Rightarrow> [] | Some entries \<Rightarrow> entries)"

definition requestOK :: "nat \<Rightarrow> heap \<Rightarrow> request \<Rightarrow> bool" where
  "requestOK N h rq =
     (refOK N (credentials (auth rq)) \<and>
      (\<forall>p \<in> set (userPaths rq). refOK N (reach rq p)) \<and>
      (case response rq of
         None \<Rightarrow> True
       | Some resp \<Rightarrow> refOK N (rerror resp) \<and> refOK N (dataOf h (rerror resp))))"

text \<open>The response lines the claim describes, from the gate and the request: none when
  the gate returns a falsy value, the gate's string as the level when it returns one,
  the level of the status code otherwise, and \<open>request-aborted\<close> at \<open>debug\<close> when
  there is no response object (the gate is not consulted then).\<close>

definition claimedLines :: "(request \<Rightarrow> val outcome) option \<Rightarrow> request \<Rightarrow> (string \<times> string) list" where
  "claimedLines gate rq =
     (case response rq of
        None \<Rightarrow> [(''debug'', ''request-aborted'')]
      | Some resp \<Rightarrow>
          (case gate of
             None \<Rightarrow> [(statusLevel (rstatusCode resp), ''request-response'')]
           | Some g \<Rightarrow>
               (case g rq of
                  Throw e \<Rightarrow> []
                | Done result \<Rightarrow>
                    if \<not> truthy result then []
                    else (case result of
                            JStr l \<Rightarrow> [(l, ''request-response'')]
                          | _ \<Rightarrow> [(statusLevel (rstatusCode resp), ''request-response'')]))))"

definition smooth ::
    "strings \<Rightarrow> nat \<Rightarrow> (request \<Rightarrow> val outcome) option \<Rightarrow> nipo \<Rightarrow> request \<Rightarrow> hstate \<Rightarrow> bool" where
  "smooth os N gate np rq s =
     (calm N (heap s) \<and>
      (case gate of None \<Rightarrow> True | Some g \<Rightarrow> (case g rq of Done x \<Rightarrow> True | Throw e \<Rightarrow> False)) \<and>
      (\<forall>l \<in> set (map fst (claimedLines gate rq)). meth (responseLogger np) l = Writes) \<and>
      meth (eventLogger np) ''trace'' = Writes \<and>
      (case response rq of
         None \<Rightarrow> True
       | Some resp \<Rightarrow>
           truthy (rerror resp) \<longrightarrow>
             ctorNameOf (heap s) (rerror resp) \<noteq> None \<and>
             (case toStr os (messageOf (heap s) (rerror resp)) of Done m \<Rightarrow> True | Throw e \<Rightarrow> False)))"

lemma defaultLevel_statusLevel: "defaultLevel st = statusLevel st"
  by (simp add: defaultLevel_def statusLevel_def)

lemma responseLine_run:
  assumes r: "lid (responseLogger np) = ResponseLogger"
    and e: "lid (eventLogger np) = EventLogger"
    and c: "closedBelow N (heap s)" and v: "requestOK N (heap s) rq"
    and q: "C \<Longrightarrow> calm N (heap s)"
    and w: "C \<Longrightarrow> meth (eventLogger np) ''trace'' = Writes"
    and wl: "C \<Longrightarrow> meth (responseLogger np)
                     (case response rq of
                        None \<Rightarrow> ''debug''
                      | Some resp \<Rightarrow> (case logLevel of Some l \<Rightarrow> l
                                      | None \<Rightarrow> statusLevel (rstatusCode resp))) = Writes"
    and rd: "\<And>resp. C \<Longrightarrow> response rq = Some resp \<Longrightarrow> truthy (rerror resp) \<Longrightarrow>
              ctorNameOf (heap s) (rerror resp) \<noteq> None
              \<and> (\<exists>m. toStr os (messageOf (heap s) (rerror resp)) = Done m)"
  shows "lineOK C s
           (case response rq of
              None \<Rightarrow> [(''debug'', ''request-aborted'')]
            | Some resp \<Rightarrow>
                [(case logLevel of Some l \<Rightarrow> l | None \<Rightarrow> statusLevel (rstatusCode resp),
                  ''request-response'')])
           (responseLine os np rq logLevel s)"
  unfolding responseLine_def
proof (rule lineOK_andThen [where N = N and ?h0.0 = "heap s" and s = s])
  from v have cr: "refOK N (credentials (auth rq))" by (simp add: requestOK_def)
  show "stepOK N (heap s) C s (credentialsField rq s)"
  proof (cases "mode (auth rq) \<noteq> JNull")
    case False
    then show ?thesis by (simp add: credentialsField_def stepOK_Done keeps_refl)
  next
    case True
    have "refOK N (if truthy (credentials (auth rq)) then credentials (auth rq) else JUndefined)"
      using cr by simp
    from onHeap_safeJson_ok [OF c keeps_refl this q] True show ?thesis
      by (simp add: credentialsField_def)
  qed
next
  show "quietExt s s" by (rule quietExt_refl)
next
  fix cred s1
  assume k1: "keeps N (heap s) (heap s1)" and q1: "quietExt s s1"
  let ?ls = "(case response rq of
              None \<Rightarrow> [(''debug'', ''request-aborted'')]
            | Some resp \<Rightarrow>
                [(case logLevel of Some l \<Rightarrow> l | None \<Rightarrow> statusLevel (rstatusCode resp),
                  ''request-response'')])"
  from v have p1: "\<forall>p \<in> set (map snd (case reqProps (route rq) of None \<Rightarrow> [] | Some entries \<Rightarrow> entries)).
                     refOK N (reach rq p)"
    and p2: "\<forall>p \<in> set (map snd (case resProps (route rq) of None \<Rightarrow> [] | Some entries \<Rightarrow> entries)).
                     refOK N (reach rq p)"
    by (auto simp: requestOK_def userPaths_def)
  show "lineOK C s ?ls
          (andThen (onHeap (applyUserProps rq (reqLiteral rq cred) (reqProps (route rq))) s1)
             (\<lambda>req s2.
                case response rq of
                  None \<Rightarrow>
                    Some (callLogger (responseLogger np) ''debug''
                            [(''req'', FObj req), (''route'', routeLiteral rq)]
                            ''request-aborted'' s2)
                | Some resp \<Rightarrow>
                    let respondedAt =
                          (if responded rq \<noteq> 0 then responded rq
                           else if completed rq \<noteq> 0 then completed rq else now rq);
                        res0 = [(''statusCode'', FVal (JNum (rstatusCode resp))),
                                (''delay'', FVal (JNum (respondedAt - received rq)))]
                    in
                    andThen (errorFields os np rq resp res0 s2)
                      (\<lambda>res3 s6.
                    andThen (onHeap (applyUserProps rq res3 (resProps (route rq))) s6)
                      (\<lambda>res s7.
                         let lvl = (case logLevel of Some l \<Rightarrow> l | None \<Rightarrow> defaultLevel (rstatusCode resp))
                         in Some (callLogger (responseLogger np) lvl
                                    [(''req'', FObj req), (''route'', routeLiteral rq), (''res'', FObj res)]
                                    ''request-response'' s7)))))"
  proof (rule lineOK_andThen [OF applyUserProps_ok [OF c k1 p1 q] q1])
    fix req s2
    assume k2: "keeps N (heap s) (heap s2)" and q2: "quietExt s s2"
    show "lineOK C s ?ls
            (case response rq of
               None \<Rightarrow>
                 Some (callLogger (responseLogger np) ''debug''
                         [(''req'', FObj req), (''route'', routeLiteral rq)]
                         ''request-aborted'' s2)
             | Some resp \<Rightarrow>
                 let respondedAt =
                       (if responded rq \<noteq> 0 then responded rq
                        else if completed rq \<noteq> 0 then completed rq else now rq);
                     res0 = [(''statusCode'', FVal (JNum (rstatusCode resp))),
                             (''delay'', FVal (JNum (respondedAt - received rq)))]
                 in
                 andThen (errorFields os np rq resp res0 s2)
                   (\<lambda>res3 s6.
                 andThen (onHeap (applyUserProps rq res3 (resProps (route rq))) s6)
                   (\<lambda>res s7.
                      let lvl = (case logLevel of Some l \<Rightarrow> l | None \<Rightarrow> defaultLevel (rstatusCode resp))
                      in Some (callLogger (responseLogger np) lvl
                                 [(''req'', FObj req), (''route'', routeLiteral rq), (''res'', FObj res)]
                                 ''request-response'' s7))))"
    proof (cases "response rq")
      case None
      show ?thesis
        unfolding None option.case
        by (rule lineOK_callLogger [OF r q2 wl [unfolded None option.case]])
    next
      case (Some resp)
      from v Some have ve: "refOK N (rerror resp)" and vd: "refOK N (dataOf (heap s) (rerror resp))"
        by (simp_all add: requestOK_def)
      have lvl_eq: "(case logLevel of Some l \<Rightarrow> l | None \<Rightarrow> defaultLevel (rstatusCode resp))
                      = (case logLevel of Some l \<Rightarrow> l | None \<Rightarrow> statusLevel (rstatusCode resp))"
        by (cases logLevel) (simp_all add: defaultLevel_statusLevel)
      let ?lvl = "(case logLevel of Some l \<Rightarrow> l | None \<Rightarrow> statusLevel (rstatusCode resp))"
      note wl' = wl [unfolded Some option.case]
      show ?thesis
        unfolding Some option.case Let_def lvl_eq
      proof (rule lineOK_andThen [OF errorFields_ok [OF c k2 e ve vd q w rd [OF _ Some]] q2])
        fix res3 s6
        assume k6: "keeps N (heap s) (heap s6)" and q6: "quietExt s s6"
        show "lineOK C s [(?lvl, ''request-response'')]
                (andThen (onHeap (applyUserProps rq res3 (resProps (route rq))) s6)
                   (\<lambda>res s7.
                      Some (callLogger (responseLogger np) ?lvl
                              [(''req'', FObj req), (''route'', routeLiteral rq), (''res'', FObj res)]
                              ''request-response'' s7)))"
        proof (rule lineOK_andThen [OF applyUserProps_ok [OF c k6 p2 q] q6])
          fix res s7
          assume "keeps N (heap s) (heap s7)" and q7: "quietExt s s7"
          show "lineOK C s [(?lvl, ''request-response'')]
                  (Some (callLogger (responseLogger np) ?lvl
                           [(''req'', FObj req), (''route'', routeLiteral rq), (''res'', FObj res)]
                           ''request-response'' s7))"
            by (rule lineOK_callLogger [OF r q7 wl'])
        qed
      qed
    qed
  qed
qed

lemma responseLine_smooth:
  assumes r: "lid (responseLogger np) = ResponseLogger"
    and e: "lid (eventLogger np) = EventLogger"
    and c: "closedBelow N (heap s)" and v: "requestOK N (heap s) rq"
    and cl: "claimedLines gate rq =
               (case response rq of
                  None \<Rightarrow> [(''debug'', ''request-aborted'')]
                | Some resp \<Rightarrow>
                    [(case logLevel of Some l \<Rightarrow> l | None \<Rightarrow> statusLevel (rstatusCode resp),
                      ''request-response'')])"
  shows "lineOK (smooth os N gate np rq s) s (claimedLines gate rq) (responseLine os np rq logLevel s)"
  unfolding cl
proof (rule responseLine_run [OF r e c v])
  assume s: "smooth os N gate np rq s"
  then show "calm N (heap s)" by (simp add: smooth_def)
  from s show "meth (eventLogger np) ''trace'' = Writes" by (simp add: smooth_def)
  from s have "\<forall>l \<in> set (map fst (claimedLines gate rq)). meth (responseLogger np) l = Writes"
    by (simp add: smooth_def)
  then show "meth (responseLogger np)
               (case response rq of
                  None \<Rightarrow> ''debug''
                | Some resp \<Rightarrow> (case logLevel of Some l \<Rightarrow> l
                                | None \<Rightarrow> statusLevel (rstatusCode resp))) = Writes"
    unfolding cl by (cases "response rq") simp_all
  fix resp
  assume "response rq = Some resp" and "truthy (rerror resp)"
  with s show "ctorNameOf (heap s) (rerror resp) \<noteq> None
                 \<and> (\<exists>m. toStr os (messageOf (heap s) (rerror resp)) = Done m)"
    by (cases "toStr os (messageOf (heap s) (rerror resp))") (simp_all add: smooth_def)
qed

text \<open>
  Claim C1. On a request whose values lie in a closed part of the heap,
  \<open>onResponseHandler\<close> ends. Whenever it ends with a value, the lines it has handed
  to the response logger are those of \<open>claimedLines\<close>: with a response object, none
  if the gate returned a falsy value (and the run is then exactly the trace-level check
  \<open>logResponseError\<close>), one \<open>request-response\<close> line at the gate's string if it
  returned a string, and otherwise one at \<open>info\<close> for a status below 400, \<open>warn\<close>
  from 400 to 499 and \<open>error\<close> from 500; without a response object, one
  \<open>request-aborted\<close> line at \<open>debug\<close>. And it does end with a value when the run is
  smooth, that is when nothing in it can throw.
\<close>

theorem onResponseHandler_level:
  assumes r: "lid (responseLogger np) = ResponseLogger"
    and e: "lid (eventLogger np) = EventLogger"
    and c: "closedBelow N (heap s)" and v: "requestOK N (heap s) rq"
  shows "\<exists>res s'. onResponseHandler os gate np rq s = Some (res, s')
           \<and> (\<forall>u. res = Done u \<longrightarrow> responseLines s s' = claimedLines gate rq)
           \<and> (smooth os N gate np rq s \<longrightarrow> res = Done ())
           \<and> (\<forall>resp g result. response rq = Some resp \<and> gate = Some g \<and> g rq = Done result
                  \<and> \<not> truthy result \<longrightarrow>
                (res, s') = logResponseError (eventLogger np) resp (infoId rq) s)"
proof -
  have line: "\<exists>res s'. responseLine os np rq logLevel s = Some (res, s')
           \<and> (\<forall>u. res = Done u \<longrightarrow> responseLines s s' = claimedLines gate rq)
           \<and> (smooth os N gate np rq s \<longrightarrow> res = Done ())"
    if "claimedLines gate rq =
               (case response rq of
                  None \<Rightarrow> [(''debug'', ''request-aborted'')]
                | Some resp \<Rightarrow>
                    [(case logLevel of Some l \<Rightarrow> l | None \<Rightarrow> statusLevel (rstatusCode resp),
                      ''request-response'')])" for logLevel
    using responseLine_smooth [OF r e c v that, of os] by (simp add: lineOK_def)
  show ?thesis
  proof (cases "response rq")
    case None
    have "claimedLines gate rq =
               (case response rq of
                  None \<Rightarrow> [(''debug'', ''request-aborted'')]
                | Some resp \<Rightarrow>
                    [(case None of Some l \<Rightarrow> l | None \<Rightarrow> statusLevel (rstatusCode resp),
                      ''request-response'')])"
      using None by (simp add: claimedLines_def)
    from line [OF this] None show ?thesis by (auto simp: onResponseHandler_def)
  next
    case (Some resp)
    note resp = this
    show ?thesis
    proof (cases gate)
      case None
      have "claimedLines gate rq =
               (case response rq of
                  None \<Rightarrow> [(''debug'', ''request-aborted'')]
                | Some resp \<Rightarrow>
                    [(case None of Some l \<Rightarrow> l | None \<Rightarrow> statusLevel (rstatusCode resp),
                      ''request-response'')])"
        using None resp by (simp add: claimedLines_def)
      from line [OF this] None resp show ?thesis by (auto simp: onResponseHandler_def)
    next
      case (Some g)
      note gate = this
      show ?thesis
      proof (cases "g rq")
        case (Throw x)
        with gate resp show ?thesis by (simp add: onResponseHandler_def smooth_def)
      next
        case (Done result)
        show ?thesis
        proof (cases "truthy result")
          case False
          obtain r1 s1 where l: "logResponseError (eventLogger np) resp (infoId rq) s = (r1, s1)"
            by (cases "logResponseError (eventLogger np) resp (infoId rq) s")
          have run: "onResponseHandler os gate np rq s = Some (r1, s1)"
            using gate resp Done False l by (simp add: onResponseHandler_def)
          have 1: "responseLines s s1 = claimedLines gate rq"
            using quietExt_lines [OF logResponseError_quiet [OF e l]] gate resp Done False
            by (simp add: claimedLines_def)
          have 2: "smooth os N gate np rq s \<longrightarrow> r1 = Done ()"
            using logResponseError_writes [OF _ l] by (simp add: smooth_def)
          from run 1 2 l gate resp Done show ?thesis by simp
        next
          case True
          let ?lvl = "(case result of JStr l \<Rightarrow> Some l | _ \<Rightarrow> None)"
          have run: "onResponseHandler os gate np rq s = responseLine os np rq ?lvl s"
            using gate resp Done True by (simp add: onResponseHandler_def split: val.splits)
          have "claimedLines gate rq =
               (case response rq of
                  None \<Rightarrow> [(''debug'', ''request-aborted'')]
                | Some resp \<Rightarrow>
                    [(case ?lvl of Some l \<Rightarrow> l | None \<Rightarrow> statusLevel (rstatusCode resp),
                      ''request-response'')])"
            using gate resp Done True by (simp add: claimedLines_def split: val.splits)
          from line [OF this] run gate resp Done True show ?thesis by auto
        qed
      qed
    qed
  qed
qed

text \<open>A gate that suppresses the line, and the runs of the handler on the request of
  the test \<open>handles logResponse option\<close>: with the gate that answers \<open>fatal\<close>, with
  the gate that suppresses, and with no gate for the status codes 200, 404 and 500 and
  for an aborted request.\<close>

definition quietGate :: "request \<Rightarrow> val outcome" where
  "quietGate rq = Done (JBool False)"

definition abortedRecord :: "request \<Rightarrow> logcall" where
  "abortedRecord rq =
     \<lparr> lc_logger = ResponseLogger, lc_level = ''debug'',
       lc_payload = [(''req'', FObj (reqLiteral rq JUndefined)), (''route'', routeLiteral rq)],
       lc_msg = ''request-aborted'' \<rparr>"

lemma request0_run:
  "onResponseHandler noString gate nipo0 (request0 (Some \<lparr> rstatusCode = st, rerror = JNull \<rparr>)) state0 =
     (case gate of
        None \<Rightarrow>
          Some (Done (), \<lparr> heap = [], log = [responseRecord
             (request0 (Some \<lparr> rstatusCode = st, rerror = JNull \<rparr>)) (defaultLevel st) st 5] \<rparr>)
      | Some g \<Rightarrow>
          (case g (request0 (Some \<lparr> rstatusCode = st, rerror = JNull \<rparr>)) of
             Throw x \<Rightarrow> Some (Throw x, state0)
           | Done result \<Rightarrow>
               if \<not> truthy result then Some (Done (), state0)
               else Some (Done (), \<lparr> heap = [], log = [responseRecord
                      (request0 (Some \<lparr> rstatusCode = st, rerror = JNull \<rparr>))
                      (case result of JStr l \<Rightarrow> l | _ \<Rightarrow> defaultLevel st) st 5] \<rparr>)))"
proof -
  let ?rq = "request0 (Some \<lparr> rstatusCode = st, rerror = JNull \<rparr>)"
  have f: "response ?rq = Some \<lparr> rstatusCode = st, rerror = JNull \<rparr>"
    "mode (auth ?rq) = JNull" "reqProps (route ?rq) = None" "resProps (route ?rq) = None"
    "responded ?rq = 105" "received ?rq = 100" "infoId ?rq = ''r1''"
    by (simp_all add: request0_def)
  have w: "meth (responseLogger nipo0) l = Writes" "lid (responseLogger nipo0) = ResponseLogger" for l
    by (simp_all add: nipo0_def plainLogger_def)
  have line: "responseLine noString nipo0 ?rq lvl state0 =
      Some (Done (), \<lparr> heap = [], log = [responseRecord ?rq
         (case lvl of Some l \<Rightarrow> l | None \<Rightarrow> defaultLevel st) st 5] \<rparr>)" for lvl
    by (simp add: responseLine_def credentialsField_def errorFields_def f andThen_def onHeap_def
          applyUserProps_def callLogger_def w state0_def responseRecord_def Let_def
          split: option.splits)
  have quiet: "logResponseError (eventLogger nipo0) \<lparr> rstatusCode = st, rerror = JNull \<rparr> ''r1'' state0
                 = (Done (), state0)"
    by (simp add: logResponseError_def)
  show ?thesis
    by (simp add: onResponseHandler_def f line quiet split: option.splits outcome.splits val.splits)
qed

lemma aborted_run:
  "onResponseHandler noString gate nipo0 (request0 None) state0 =
     Some (Done (), \<lparr> heap = [], log = [abortedRecord (request0 None)] \<rparr>)"
proof -
  let ?rq = "request0 None"
  have f: "response ?rq = None"
    "mode (auth ?rq) = JNull" "reqProps (route ?rq) = None" "resProps (route ?rq) = None"
    by (simp_all add: request0_def)
  have w: "meth (responseLogger nipo0) l = Writes" "lid (responseLogger nipo0) = ResponseLogger" for l
    by (simp_all add: nipo0_def plainLogger_def)
  show ?thesis
    by (simp add: onResponseHandler_def responseLine_def credentialsField_def f andThen_def
          onHeap_def applyUserProps_def callLogger_def w state0_def abortedRecord_def)
qed

theorem onResponseHandler_level_witness:
  "lid (responseLogger nipo0) = ResponseLogger
   \<and> lid (eventLogger nipo0) = EventLogger
   \<and> closedBelow 0 (heap state0)
   \<and> requestOK 0 (heap state0) (request0 (Some \<lparr> rstatusCode = 404, rerror = JNull \<rparr>))
   \<and> requestOK 0 (heap state0) (request0 (Some \<lparr> rstatusCode = 500, rerror = JNull \<rparr>))
   \<and> requestOK 0 (heap state0) (request0 (Some \<lparr> rstatusCode = 200, rerror = JNull \<rparr>))
   \<and> requestOK 0 (heap state0) (request0 None)
   \<and> smooth noString 0 None nipo0 (request0 (Some \<lparr> rstatusCode = 500, rerror = JNull \<rparr>)) state0
   \<and> onResponseHandler noString (Some fatalGate) nipo0
         (request0 (Some \<lparr> rstatusCode = 404, rerror = JNull \<rparr>)) state0
       = Some (Done (), \<lparr> heap = [], log = [responseRecord
             (request0 (Some \<lparr> rstatusCode = 404, rerror = JNull \<rparr>)) ''fatal'' 404 5] \<rparr>)
   \<and> responseLines state0 \<lparr> heap = [], log = [responseRecord
             (request0 (Some \<lparr> rstatusCode = 404, rerror = JNull \<rparr>)) ''fatal'' 404 5] \<rparr>
       = [(''fatal'', ''request-response'')]
   \<and> onResponseHandler noString (Some quietGate) nipo0
         (request0 (Some \<lparr> rstatusCode = 404, rerror = JNull \<rparr>)) state0
       = Some (Done (), state0)
   \<and> responseLines state0 state0 = []
   \<and> onResponseHandler noString None nipo0
         (request0 (Some \<lparr> rstatusCode = 404, rerror = JNull \<rparr>)) state0
       = Some (Done (), \<lparr> heap = [], log = [responseRecord
             (request0 (Some \<lparr> rstatusCode = 404, rerror = JNull \<rparr>)) ''warn'' 404 5] \<rparr>)
   \<and> responseLines state0 \<lparr> heap = [], log = [responseRecord
             (request0 (Some \<lparr> rstatusCode = 404, rerror = JNull \<rparr>)) ''warn'' 404 5] \<rparr>
       = [(''warn'', ''request-response'')]
   \<and> onResponseHandler noString None nipo0
         (request0 (Some \<lparr> rstatusCode = 500, rerror = JNull \<rparr>)) state0
       = Some (Done (), \<lparr> heap = [], log = [responseRecord
             (request0 (Some \<lparr> rstatusCode = 500, rerror = JNull \<rparr>)) ''error'' 500 5] \<rparr>)
   \<and> responseLines state0 \<lparr> heap = [], log = [responseRecord
             (request0 (Some \<lparr> rstatusCode = 500, rerror = JNull \<rparr>)) ''error'' 500 5] \<rparr>
       = [(''error'', ''request-response'')]
   \<and> onResponseHandler noString None nipo0
         (request0 (Some \<lparr> rstatusCode = 200, rerror = JNull \<rparr>)) state0
       = Some (Done (), \<lparr> heap = [], log = [responseRecord
             (request0 (Some \<lparr> rstatusCode = 200, rerror = JNull \<rparr>)) ''info'' 200 5] \<rparr>)
   \<and> responseLines state0 \<lparr> heap = [], log = [responseRecord
             (request0 (Some \<lparr> rstatusCode = 200, rerror = JNull \<rparr>)) ''info'' 200 5] \<rparr>
       = [(''info'', ''request-response'')]
   \<and> onResponseHandler noString None nipo0 (request0 None) state0
       = Some (Done (), \<lparr> heap = [], log = [abortedRecord (request0 None)] \<rparr>)
   \<and> responseLines state0 \<lparr> heap = [], log = [abortedRecord (request0 None)] \<rparr>
       = [(''debug'', ''request-aborted'')]"
proof -
  let ?rq = "\<lambda>st. request0 (Some \<lparr> rstatusCode = st, rerror = JNull \<rparr>)"
  have r: "lid (responseLogger nipo0) = ResponseLogger"
    by (simp add: nipo0_def plainLogger_def)
  have e: "lid (eventLogger nipo0) = EventLogger"
    by (simp add: nipo0_def plainLogger_def)
  have c: "closedBelow 0 (heap state0)"
    by (simp add: closedBelow_def)
  have v: "requestOK 0 (heap state0) (?rq st)" for st
    by (simp add: requestOK_def request0_def userPaths_def dataOf_def)
  have va: "requestOK 0 (heap state0) (request0 None)"
    by (simp add: requestOK_def request0_def userPaths_def)
  have f: "response (?rq st) = Some \<lparr> rstatusCode = st, rerror = JNull \<rparr>" for st
    by (simp add: request0_def)
  have fa: "response (request0 None) = None"
    by (simp add: request0_def)
  have sm: "smooth noString 0 None nipo0 (?rq 500) state0"
    by (simp add: smooth_def calm_def f nipo0_def plainLogger_def)
  have run1: "onResponseHandler noString (Some fatalGate) nipo0 (?rq 404) state0
       = Some (Done (), \<lparr> heap = [], log = [responseRecord (?rq 404) ''fatal'' 404 5] \<rparr>)"
    by (simp add: request0_run fatalGate_def)
  have run2: "onResponseHandler noString (Some quietGate) nipo0 (?rq 404) state0 = Some (Done (), state0)"
    by (simp add: request0_run quietGate_def)
  have run3: "onResponseHandler noString None nipo0 (?rq 404) state0
       = Some (Done (), \<lparr> heap = [], log = [responseRecord (?rq 404) ''warn'' 404 5] \<rparr>)"
    by (simp add: request0_run defaultLevel_def)
  have run4: "onResponseHandler noString None nipo0 (?rq 500) state0
       = Some (Done (), \<lparr> heap = [], log = [responseRecord (?rq 500) ''error'' 500 5] \<rparr>)"
    by (simp add: request0_run defaultLevel_def)
  have run5: "onResponseHandler noString None nipo0 (?rq 200) state0
       = Some (Done (), \<lparr> heap = [], log = [responseRecord (?rq 200) ''info'' 200 5] \<rparr>)"
    by (simp add: request0_run defaultLevel_def)
  have run6: "onResponseHandler noString None nipo0 (request0 None) state0
       = Some (Done (), \<lparr> heap = [], log = [abortedRecord (request0 None)] \<rparr>)"
    by (rule aborted_run)
  have c1: "claimedLines (Some fatalGate) (?rq 404) = [(''fatal'', ''request-response'')]"
    by (simp add: claimedLines_def f fatalGate_def)
  have c2: "claimedLines (Some quietGate) (?rq 404) = []"
    by (simp add: claimedLines_def f quietGate_def)
  have c3: "claimedLines None (?rq 404) = [(''warn'', ''request-response'')]"
    "claimedLines None (?rq 500) = [(''error'', ''request-response'')]"
    "claimedLines None (?rq 200) = [(''info'', ''request-response'')]"
    by (simp_all add: claimedLines_def f statusLevel_def)
  have c6: "claimedLines None (request0 None) = [(''debug'', ''request-aborted'')]"
    by (simp add: claimedLines_def fa)
  note t = onResponseHandler_level [OF r e c]
  from t [OF v [of 404], where os = noString and gate = "Some fatalGate"] run1 c1
  have l1: "responseLines state0 \<lparr> heap = [], log = [responseRecord (?rq 404) ''fatal'' 404 5] \<rparr>
              = [(''fatal'', ''request-response'')]" by simp
  from t [OF v [of 404], where os = noString and gate = "Some quietGate"] run2 c2
  have l2: "responseLines state0 state0 = []" by simp
  from t [OF v [of 404], where os = noString and gate = None] run3 c3
  have l3: "responseLines state0 \<lparr> heap = [], log = [responseRecord (?rq 404) ''warn'' 404 5] \<rparr>
              = [(''warn'', ''request-response'')]" by simp
  from t [OF v [of 500], where os = noString and gate = None] run4 c3
  have l4: "responseLines state0 \<lparr> heap = [], log = [responseRecord (?rq 500) ''error'' 500 5] \<rparr>
              = [(''error'', ''request-response'')]" by simp
  from t [OF v [of 200], where os = noString and gate = None] run5 c3
  have l5: "responseLines state0 \<lparr> heap = [], log = [responseRecord (?rq 200) ''info'' 200 5] \<rparr>
              = [(''info'', ''request-response'')]" by simp
  from t [OF va, where os = noString and gate = None] run6 c6
  have l6: "responseLines state0 \<lparr> heap = [], log = [abortedRecord (request0 None)] \<rparr>
              = [(''debug'', ''request-aborted'')]" by simp
  show ?thesis
    using r e c v va sm run1 run2 run3 run4 run5 run6 l1 l2 l3 l4 l5 l6 by blast
qed

section \<open>The cause chain of an error\<close>

text \<open>
  \<open>causeChain h c efs e\<close>: from the cause \<open>c\<close>, following \<open>errorCause\<close>, the walk
  passes the errors \<open>efs\<close> (each with its fields) and arrives at the value \<open>e\<close>.
  \<open>joinColon\<close> joins segments with \<open>': '\<close>. \<open>walkChain\<close> is what \<open>addCause\<close>
  appends to the record while it passes the errors of a chain.
\<close>

fun causeChain :: "heap \<Rightarrow> val \<Rightarrow> (val \<times> errfields) list \<Rightarrow> val \<Rightarrow> bool" where
  "causeChain h c [] e = (c = e)"
| "causeChain h c ((x, ef) # rest) e =
     (c = x \<and> errProps h x = Some ef \<and> causeChain h (errorCause h ef) rest e)"

fun joinColon :: "string list \<Rightarrow> string" where
  "joinColon [] = []"
| "joinColon [s] = s"
| "joinColon (s # t # ss) = s @ '': '' @ joinColon (t # ss)"

fun walkChain ::
    "strings \<Rightarrow> serialized \<Rightarrow> bool \<Rightarrow> (val \<times> errfields) list \<Rightarrow> serialized outcome" where
  "walkChain os sz ws [] = Done sz"
| "walkChain os sz ws ((x, ef) # rest) =
     (case stackAppend os (sz\<lparr> smessage := smessage sz @ '': '' @ message ef \<rparr>) ws
             (case stackOrUnknown os ef of
                Throw e \<Rightarrow> Throw e
              | Done st \<Rightarrow> Done (CHR 0x0A # ''caused by: '' @ st)) of
        Throw e \<Rightarrow> Throw e
      | Done sz2 \<Rightarrow> walkChain os sz2 ws rest)"

lemma joinColon_Cons:
  "joinColon (m # ms) = m @ concat (map (\<lambda>s. '': '' @ s) ms)"
  by (induction ms arbitrary: m) auto

lemma messageOrSelf_error:
  assumes "errProps h x = Some ef"
  shows "messageOrSelf os h x = Done (message ef)"
proof -
  from errProps_SomeD [OF assms] obtain a where "x = JRef a" by blast
  with assms show ?thesis by (simp add: messageOrSelf_def)
qed

lemma errProps_not_undefined: "errProps h x = Some ef \<Longrightarrow> x \<noteq> JUndefined"
  by (auto dest: errProps_SomeD)

lemma addCause_walk:
  "causeChain h c efs e \<Longrightarrow> distinct (map fst efs) \<Longrightarrow> set (map fst efs) \<inter> set seen = {} \<Longrightarrow>
     addCause os h sz c ws seen =
       (case walkChain os sz ws efs of
          Throw ex \<Rightarrow> Throw ex
        | Done sz' \<Rightarrow> addCause os h sz' e ws (seen @ map fst efs))"
proof (induction efs arbitrary: sz c seen)
  case Nil
  then show ?case by simp
next
  case (Cons p efs)
  obtain x ef where p: "p = (x, ef)" by (cases p)
  from Cons.prems(1) p have c: "c = x" and ep: "errProps h x = Some ef"
    and rest: "causeChain h (errorCause h ef) efs e" by auto
  from Cons.prems(2,3) p have ns: "x \<notin> set seen" and d: "distinct (map fst efs)"
    and disj: "set (map fst efs) \<inter> set (seen @ [x]) = {}" by auto
  note ih = Cons.IH [OF rest d disj]
  show ?case
    unfolding p c
    by (subst addCause.simps)
       (simp add: errProps_not_undefined [OF ep] ns messageOrSelf_error [OF ep] ep ih Let_def
          split: outcome.splits)
qed

lemma walkChain_message:
  "walkChain os sz ws efs = Done sz' \<Longrightarrow>
     smessage sz' = smessage sz @ concat (map (\<lambda>s. '': '' @ s) (map (message \<circ> snd) efs))"
proof (induction efs arbitrary: sz)
  case Nil
  then show ?case by simp
next
  case (Cons p efs)
  obtain x ef where p: "p = (x, ef)" by (cases p)
  from Cons.prems p obtain sz2 where
    a: "stackAppend os (sz\<lparr> smessage := smessage sz @ '': '' @ message ef \<rparr>) ws
             (case stackOrUnknown os ef of
                Throw e \<Rightarrow> Throw e
              | Done st \<Rightarrow> Done (CHR 0x0A # ''caused by: '' @ st)) = Done sz2"
    and w: "walkChain os sz2 ws efs = Done sz'"
    by (auto split: outcome.splits)
  from a have "smessage sz2 = smessage sz @ '': '' @ message ef"
    by (auto simp: stackAppend_def split: if_splits outcome.splits)
  with Cons.IH [OF w] p show ?case by simp
qed


lemma walkChain_stack_off:
  "walkChain os sz False efs = Done sz' \<Longrightarrow> sstack sz' = sstack sz"
proof (induction efs arbitrary: sz)
  case Nil
  then show ?case by simp
next
  case (Cons p efs)
  obtain x ef where p: "p = (x, ef)" by (cases p)
  from Cons.prems p have "walkChain os (sz\<lparr> smessage := smessage sz @ '': '' @ message ef \<rparr>) False efs = Done sz'"
    by (simp add: stackAppend_def)
  from Cons.IH [OF this] show ?case by simp
qed

definition causedBy :: "strings \<Rightarrow> errfields \<Rightarrow> string" where
  "causedBy os ef =
     (case stackOrUnknown os ef of
        Done st \<Rightarrow> CHR 0x0A # ''caused by: '' @ st
      | Throw e \<Rightarrow> [])"

lemma walkChain_stack_on:
  "walkChain os sz True efs = Done sz' \<Longrightarrow> sstack sz = Some (JStr s0) \<Longrightarrow>
     sstack sz' = Some (JStr (s0 @ concat (map (causedBy os \<circ> snd) efs)))"
proof (induction efs arbitrary: sz s0)
  case Nil
  then show ?case by simp
next
  case (Cons p efs)
  obtain x ef where p: "p = (x, ef)" by (cases p)
  from Cons.prems p obtain st where st: "stackOrUnknown os ef = Done st"
    by (cases "stackOrUnknown os ef") (auto simp: stackAppend_def)
  let ?sz2 = "sz\<lparr> smessage := smessage sz @ '': '' @ message ef,
                   sstack := Some (JStr (s0 @ CHR 0x0A # ''caused by: '' @ st)) \<rparr>"
  from Cons.prems p st have w: "walkChain os ?sz2 True efs = Done sz'"
    by (simp add: stackAppend_def toStr_def)
  have "sstack ?sz2 = Some (JStr (s0 @ CHR 0x0A # ''caused by: '' @ st))" by simp
  from Cons.IH [OF w this] p st show ?case by (simp add: causedBy_def)
qed

definition terminal :: "heap \<Rightarrow> val \<Rightarrow> val list \<Rightarrow> bool" where
  "terminal h e seen = (e = JUndefined \<or> e \<in> set seen \<or> errProps h e = None)"

lemma addCauseCalls_terminal:
  "terminal h e seen \<Longrightarrow> addCauseCalls os h sz e ws seen = 1"
  by (subst addCauseCalls.simps) (auto simp: terminal_def Let_def split: outcome.splits)

lemma addCauseCalls_walk:
  "causeChain h c efs e \<Longrightarrow> distinct (map fst efs) \<Longrightarrow> set (map fst efs) \<inter> set seen = {} \<Longrightarrow>
     terminal h e (seen @ map fst efs) \<Longrightarrow>
     addCauseCalls os h sz c ws seen \<le> length efs + 1
     \<and> (\<forall>sz'. walkChain os sz ws efs = Done sz' \<longrightarrow>
           addCauseCalls os h sz c ws seen = length efs + 1)"
proof (induction efs arbitrary: sz c seen)
  case Nil
  then show ?case by (simp add: addCauseCalls_terminal)
next
  case (Cons p efs)
  obtain x ef where p: "p = (x, ef)" by (cases p)
  from Cons.prems(1) p have c: "c = x" and ep: "errProps h x = Some ef"
    and rest: "causeChain h (errorCause h ef) efs e" by auto
  from Cons.prems(2,3) p have ns: "x \<notin> set seen" and d: "distinct (map fst efs)"
    and disj: "set (map fst efs) \<inter> set (seen @ [x]) = {}" by auto
  from Cons.prems(4) p have t: "terminal h e ((seen @ [x]) @ map fst efs)" by simp
  note ih = Cons.IH [OF rest d disj t]
  show ?case
    unfolding p c
    by (subst addCauseCalls.simps, subst (2) addCauseCalls.simps)
       (use ih in \<open>auto simp: errProps_not_undefined [OF ep] ns messageOrSelf_error [OF ep] ep Let_def
          split: outcome.splits\<close>)
qed


text \<open>The sanitizer extends the heap: it keeps every object and adds copies, so the
  errors of the heap and their causes are the same before and after.\<close>

definition extends :: "heap \<Rightarrow> heap \<Rightarrow> bool" where
  "extends h h' = (keeps (length h) h h' \<and> copiesAbove (length h) h')"

lemma extends_refl: "extends h h"
  by (simp add: extends_def keeps_refl copiesAbove_length)

lemma extends_trans:
  assumes "extends h h1" and "extends h1 h2"
  shows "extends h h2"
proof -
  from assms have len: "length h \<le> length h1" by (simp add: extends_def keeps_def)
  from assms have "keeps (length h) h1 h2" by (auto simp: extends_def intro: keeps_mono len)
  with assms have k: "keeps (length h) h h2" by (auto simp: extends_def intro: keeps_trans)
  from assms len have "copiesAbove (length h) h2"
    by (auto simp: extends_def intro: copiesAbove_keeps)
  with k show ?thesis by (simp add: extends_def)
qed

lemma safeJson_extends: "safeJson h v = Some (r, h') \<Longrightarrow> extends h h'"
  by (auto simp: safeJson_def extends_def split: option.splits prod.splits
        dest: framedD [OF safeJsonObject_framed])

lemma safeJson_JStr: "safeJson h (JStr s) = Some (Done (JStr s), h)"
  by (simp add: safeJson_def safeJsonObject_Suc callToJSON_def)

lemma errProps_extends:
  assumes "extends h h'"
  shows "errProps h' x = errProps h x"
proof (cases x)
  case (JRef a)
  from assms have len: "length h \<le> length h'" by (simp add: extends_def keeps_def)
  show ?thesis
  proof (cases "a < length h")
    case True
    with assms len JRef show ?thesis by (simp add: errProps_def extends_def keeps_def)
  next
    case False
    with assms have "a < length h' \<Longrightarrow> err (h' ! a) = None"
      by (simp add: extends_def copiesAbove_def)
    with False JRef show ?thesis by (simp add: errProps_def)
  qed
qed (simp_all add: errProps_def)

lemma errorCause_extends: "extends h h' \<Longrightarrow> errorCause h' ef = errorCause h ef"
  by (simp add: errorCause_def isError_def errProps_extends)

lemma causeChain_extends: "extends h h' \<Longrightarrow> causeChain h' c efs e = causeChain h c efs e"
  by (induction efs arbitrary: c) (auto simp: errProps_extends errorCause_extends)

lemma errSerializer_run:
  assumes e0: "errProps h e0 = Some ef0"
    and run: "errSerializer os h e0 withStack = Some (Done (Record r), h')"
  obtains cd1 d1 st1 where "extends h h'"
    and "addCause os h' \<lparr> stype = errorName h ef0, smessage = message ef0, scode = cd1,
                           sdata = d1, sstack = st1 \<rparr>
           (errorCause h ef0) (withStack \<and> (case stack ef0 of JStr s \<Rightarrow> True | _ \<Rightarrow> False)) [e0]
         = Done r"
    and "\<And>s0. withStack \<Longrightarrow> stack ef0 = JStr s0 \<Longrightarrow> st1 = Some (JStr s0)"
proof -
  let ?c = "errorCause h ef0"
  let ?data = "(if isBoom ef0 \<and> strictEq (edata ef0) ?c then JUndefined else edata ef0)"
  let ?cd = "(if isBoom ef0 \<and> code ef0 = JUndefined then statusCode ef0 else code ef0)"
  let ?ws1 = "(withStack \<and> (case stack ef0 of JStr s \<Rightarrow> True | _ \<Rightarrow> False))"
  from run [unfolded errSerializer_def e0 option.case Let_def]
  obtain cd1 h1 where s1: "safeJson h ?cd = Some (Done cd1, h1)"
    and rest1: "andThen
             (if ?data \<noteq> JNull \<and> ?data \<noteq> JUndefined then
                andThen (safeJson h1 ?data) (\<lambda>d hd. Some (Done (Some d), hd))
              else Some (Done None, h1))
             (\<lambda>d1 h2.
           andThen
             (if withStack then
                andThen (safeJson h2 (stack ef0)) (\<lambda>st hs. Some (Done (Some st), hs))
              else Some (Done None, h2))
             (\<lambda>st1 h3.
                (case addCause os h3 \<lparr> stype = errorName h ef0, smessage = message ef0, scode = cd1,
                             sdata = d1, sstack = st1 \<rparr> ?c ?ws1 [e0] of
                      Throw e \<Rightarrow> Some (Throw e, h3)
                    | Done r \<Rightarrow> Some (Done (Record r), h3)))) = Some (Done (Record r), h')"
    by (rule andThen_DoneE)
  from rest1 obtain d1 h2 where
    s2: "(if ?data \<noteq> JNull \<and> ?data \<noteq> JUndefined then
                andThen (safeJson h1 ?data) (\<lambda>d hd. Some (Done (Some d), hd))
              else Some (Done None, h1)) = Some (Done d1, h2)"
    and rest2: "andThen
             (if withStack then
                andThen (safeJson h2 (stack ef0)) (\<lambda>st hs. Some (Done (Some st), hs))
              else Some (Done None, h2))
             (\<lambda>st1 h3.
                (case addCause os h3 \<lparr> stype = errorName h ef0, smessage = message ef0, scode = cd1,
                             sdata = d1, sstack = st1 \<rparr> ?c ?ws1 [e0] of
                      Throw e \<Rightarrow> Some (Throw e, h3)
                    | Done r \<Rightarrow> Some (Done (Record r), h3))) = Some (Done (Record r), h')"
    by (rule andThen_DoneE)
  from rest2 obtain st1 h3 where
    s3: "(if withStack then
                andThen (safeJson h2 (stack ef0)) (\<lambda>st hs. Some (Done (Some st), hs))
              else Some (Done None, h2)) = Some (Done st1, h3)"
    and rest3: "(case addCause os h3 \<lparr> stype = errorName h ef0, smessage = message ef0, scode = cd1,
                             sdata = d1, sstack = st1 \<rparr> ?c ?ws1 [e0] of
                      Throw e \<Rightarrow> Some (Throw e, h3)
                    | Done r \<Rightarrow> Some (Done (Record r), h3)) = Some (Done (Record r), h')"
    by (rule andThen_DoneE)
  have e1: "extends h h1" using s1 by (rule safeJson_extends)
  have e2: "extends h1 h2"
  proof (cases "?data \<noteq> JNull \<and> ?data \<noteq> JUndefined")
    case True
    with s2 obtain d where "safeJson h1 ?data = Some (Done d, h2)"
      by (auto elim!: andThen_DoneE)
    then show ?thesis by (rule safeJson_extends)
  next
    case False
    with s2 show ?thesis by (simp add: extends_refl)
  qed
  have e3: "extends h2 h3"
  proof (cases withStack)
    case True
    with s3 obtain st where "safeJson h2 (stack ef0) = Some (Done st, h3)"
      by (auto elim!: andThen_DoneE)
    then show ?thesis by (rule safeJson_extends)
  next
    case False
    with s3 show ?thesis by (simp add: extends_refl)
  qed
  from rest3 have h': "h' = h3"
    and ac: "addCause os h3 \<lparr> stype = errorName h ef0, smessage = message ef0, scode = cd1,
                             sdata = d1, sstack = st1 \<rparr> ?c ?ws1 [e0] = Done r"
    by (auto split: outcome.splits)
  have ext: "extends h h'" unfolding h' using e1 e2 e3 by (blast intro: extends_trans)
  have st: "st1 = Some (JStr s0)" if "withStack" "stack ef0 = JStr s0" for s0
    using s3 that by (auto simp: safeJson_JStr andThen_def)
  from ext ac st that show ?thesis unfolding h' by blast
qed


text \<open>
  The message and the stack of the record, for an error whose chain of causes passes
  \<open>k\<close> errors and then ends. If it ends with no cause, the message is the \<open>k + 1\<close>
  messages joined by \<open>': '\<close>. If it ends by coming back to an error already passed,
  the message is those segments followed by \<open>': ...'\<close>, the stack (when tracing is on
  and the stack of the first error is a string) ends with the note, and \<open>addCause\<close>
  has been called at most \<open>k + 1\<close> times. If it ends with a primitive other than
  \<open>null\<close>, that value, as a string, is one more segment.
\<close>

definition circularNote :: string where
  "circularNote = CHR 0x0A # ''causes have become circular...''"

lemma errSerializer_cause_chain:
  assumes e0: "errProps h e0 = Some ef0"
    and chain: "causeChain h (errorCause h ef0) efs e"
    and dist: "distinct (e0 # map fst efs)"
    and run: "errSerializer os h e0 withStack = Some (Done (Record r), h')"
  shows "(e = JUndefined \<longrightarrow>
            smessage r = joinColon (message ef0 # map (message \<circ> snd) efs))
         \<and> (e \<in> set (e0 # map fst efs) \<longrightarrow>
            smessage r = joinColon (message ef0 # map (message \<circ> snd) efs) @ '': ...''
            \<and> (\<forall>s0. withStack \<and> stack ef0 = JStr s0 \<longrightarrow>
                  sstack r = Some (JStr (s0 @ concat (map (causedBy os \<circ> snd) efs) @ circularNote))))
         \<and> (e \<noteq> JUndefined \<and> e \<noteq> JNull \<and> (\<forall>a. e \<noteq> JRef a) \<longrightarrow>
              (\<exists>m. toStr os e = Done m \<and>
                   smessage r = joinColon ((message ef0 # map (message \<circ> snd) efs) @ [m])))
         \<and> (terminal h e (e0 # map fst efs) \<longrightarrow>
              (\<forall>sz ws. addCauseCalls os h' sz (errorCause h ef0) ws [e0] \<le> length efs + 1))"
proof -
  let ?ws1 = "(withStack \<and> (case stack ef0 of JStr s \<Rightarrow> True | _ \<Rightarrow> False))"
  from errSerializer_run [OF e0 run] obtain cd1 d1 st1 where
    ext: "extends h h'"
    and ac: "addCause os h' \<lparr> stype = errorName h ef0, smessage = message ef0, scode = cd1,
                           sdata = d1, sstack = st1 \<rparr> (errorCause h ef0) ?ws1 [e0] = Done r"
    and st: "\<And>s0. withStack \<Longrightarrow> stack ef0 = JStr s0 \<Longrightarrow> st1 = Some (JStr s0)"
    by blast
  let ?res = "\<lparr> stype = errorName h ef0, smessage = message ef0, scode = cd1,
                 sdata = d1, sstack = st1 \<rparr>"
  have chain': "causeChain h' (errorCause h ef0) efs e"
    using chain ext by (simp add: causeChain_extends)
  from dist have d: "distinct (map fst efs)" and disj: "set (map fst efs) \<inter> set [e0] = {}"
    by auto
  from addCause_walk [OF chain' d disj, of os ?res ?ws1] ac
  obtain sz' where w: "walkChain os ?res ?ws1 efs = Done sz'"
    and fin: "addCause os h' sz' e ?ws1 ([e0] @ map fst efs) = Done r"
    by (cases "walkChain os ?res ?ws1 efs") auto
  have msg: "smessage sz' = joinColon (message ef0 # map (message \<circ> snd) efs)"
    using walkChain_message [OF w] by (simp add: joinColon_Cons)
  have 1: "smessage r = joinColon (message ef0 # map (message \<circ> snd) efs)" if "e = JUndefined"
    using fin that msg by (subst (asm) addCause.simps) simp
  have 2: "smessage r = joinColon (message ef0 # map (message \<circ> snd) efs) @ '': ...''
            \<and> (\<forall>s0. withStack \<and> stack ef0 = JStr s0 \<longrightarrow>
                  sstack r = Some (JStr (s0 @ concat (map (causedBy os \<circ> snd) efs) @ circularNote)))"
    if mem: "e \<in> set (e0 # map fst efs)"
  proof -
    have nu: "e \<noteq> JUndefined"
    proof
      assume "e = JUndefined"
      with mem e0 chain have "JUndefined \<in> set (map fst efs)"
        by (auto dest: errProps_not_undefined)
      then show False
        using chain
      proof (induction efs arbitrary: ef0)
        case Nil
        then show ?case by simp
      next
        case (Cons p efs)
        obtain x ef where p: "p = (x, ef)" by (cases p)
        from Cons.prems p have "x \<noteq> JUndefined" "causeChain h (errorCause h ef) efs e"
          by (auto dest: errProps_not_undefined)
        with Cons.prems p Cons.IH [of ef] show ?case by auto
      qed
    qed
    from fin nu mem obtain sz2 where
      sa: "stackAppend os sz' ?ws1 (Done circularNote) = Done sz2"
      and r: "r = sz2\<lparr> smessage := smessage sz2 @ '': ...'' \<rparr>"
      by (subst (asm) addCause.simps) (auto simp: circularNote_def split: outcome.splits)
    from sa have m2: "smessage sz2 = smessage sz'"
      by (auto simp: stackAppend_def split: if_splits outcome.splits)
    have stk: "sstack r = Some (JStr (s0 @ concat (map (causedBy os \<circ> snd) efs) @ circularNote))"
      if "withStack" "stack ef0 = JStr s0" for s0
    proof -
      from that have ws: "?ws1" by simp
      from st [OF that] have "sstack ?res = Some (JStr s0)" by simp
      from walkChain_stack_on [OF w [unfolded eqTrueI [OF ws]] this]
      have "sstack sz' = Some (JStr (s0 @ concat (map (causedBy os \<circ> snd) efs)))" .
      with sa ws r show ?thesis
        by (auto simp: stackAppend_def toStr_def split: outcome.splits)
    qed
    from r m2 msg stk show ?thesis by simp
  qed
  have 3: "addCauseCalls os h' sz (errorCause h ef0) ws [e0] \<le> length efs + 1"
    if "terminal h e (e0 # map fst efs)" for sz ws
  proof -
    from that ext have "terminal h' e ([e0] @ map fst efs)"
      by (simp add: terminal_def errProps_extends)
    from addCauseCalls_walk [OF chain' d disj this] show ?thesis by blast
  qed
  have 4: "\<exists>m. toStr os e = Done m \<and>
             smessage r = joinColon ((message ef0 # map (message \<circ> snd) efs) @ [m])"
    if prim: "e \<noteq> JUndefined" "e \<noteq> JNull" "\<forall>a. e \<noteq> JRef a"
  proof -
    from prim obtain m where m: "toStr os e = Done m"
      by (cases e) (auto simp: toStr_def)
    from prim have mo: "messageOrSelf os h' e = toStr os e"
      by (cases e) (auto simp: messageOrSelf_def)
    from prim have ne: "errProps h' e = None"
      by (cases e) (auto simp: errProps_def)
    have ns: "e \<notin> set ([e0] @ map fst efs)"
    proof
      assume mem: "e \<in> set ([e0] @ map fst efs)"
      have "\<exists>a. x = JRef a" if "x \<in> set (map fst efs)" for x
        using that chain
      proof (induction efs arbitrary: ef0)
        case Nil
        then show ?case by simp
      next
        case (Cons p efs)
        obtain y ef where p: "p = (y, ef)" by (cases p)
        from Cons.prems p have "\<exists>a. y = JRef a" "causeChain h (errorCause h ef) efs e"
          by (auto dest: errProps_SomeD)
        with Cons.prems p Cons.IH [of ef] show ?case by auto
      qed
      with mem e0 prim show False by (auto dest: errProps_SomeD)
    qed
    from fin prim(1) ns mo m ne have "r = sz'\<lparr> smessage := smessage sz' @ '': '' @ m \<rparr>"
      by (subst (asm) addCause.simps) (simp add: Let_def)
    with msg m show ?thesis by (simp add: joinColon_Cons)
  qed
  from 1 2 3 4 show ?thesis by blast
qed


text \<open>The test \<open>handles errors with circular cause\<close>.\<close>

definition cycleHeap :: heap where
  "cycleHeap =
     [errorObj ((plainError ''TypeError'' ''fail'')\<lparr> cause := JRef 1 \<rparr>),
      errorObj ((plainError ''Error'' ''real error'')\<lparr> cause := JRef 0 \<rparr>)]"


lemma cycleHeap_run:
  "errSerializer noString cycleHeap (JRef 0) True =
     Some (Done (Record \<lparr> stype = ''TypeError'', smessage = ''fail: real error: ...'',
                          scode = JUndefined, sdata = None,
                          sstack = Some (JStr (''TypeError: fail'' @
                                     (CHR 0x0A # ''caused by: Error: real error'') @ circularNote)) \<rparr>),
           cycleHeap)"
  by (simp add: errSerializer_def errProps_def cycleHeap_def errorObj_def plainError_def
        errorCause_def errorName_def isError_def andThen_def safeJson_def safeJsonObject_Suc
        callToJSON_def addCause.simps messageOrSelf_def stackAppend_def stackOrUnknown_def
        toStr_def circularNote_def Let_def strictEq_def)


definition failError :: errfields where
  "failError = (plainError ''TypeError'' ''fail'')\<lparr> cause := JRef 1 \<rparr>"

definition realError :: errfields where
  "realError = (plainError ''Error'' ''real error'')\<lparr> cause := JRef 0 \<rparr>"

lemma errSerializer_cause_chain_example:
  "errProps cycleHeap (JRef 0) = Some failError
   \<and> causeChain cycleHeap (errorCause cycleHeap failError) [(JRef 1, realError)] (JRef 0)
   \<and> distinct (JRef 0 # map fst [(JRef 1, realError)])
   \<and> (\<exists>r. errSerializer noString cycleHeap (JRef 0) True = Some (Done (Record r), cycleHeap)
          \<and> smessage r = ''fail: real error: ...''
          \<and> sstack r = Some (JStr (''TypeError: fail'' @ causedBy noString realError @ circularNote)))
   \<and> addCauseCalls noString cycleHeap
        \<lparr> stype = [], smessage = [], scode = JUndefined, sdata = None, sstack = None \<rparr>
        (errorCause cycleHeap failError) False [JRef 0] \<le> 2"
proof -
  have a: "errProps cycleHeap (JRef 0) = Some failError"
    by (simp add: errProps_def cycleHeap_def errorObj_def failError_def)
  have b: "errProps cycleHeap (JRef 1) = Some realError"
    by (simp add: errProps_def cycleHeap_def errorObj_def realError_def)
  have c1: "errorCause cycleHeap failError = JRef 1"
    by (simp add: errorCause_def failError_def plainError_def)
  have c2: "errorCause cycleHeap realError = JRef 0"
    by (simp add: errorCause_def realError_def plainError_def)
  have ch: "causeChain cycleHeap (errorCause cycleHeap failError) [(JRef 1, realError)] (JRef 0)"
    using b by (simp add: c1 c2)
  have d: "distinct (JRef 0 # map fst [(JRef 1, realError)])" by simp
  have t: "terminal cycleHeap (JRef 0) (JRef 0 # map fst [(JRef 1, realError)])"
    by (simp add: terminal_def)
  have f: "message failError = ''fail''" "message realError = ''real error''"
    "stack failError = JStr ''TypeError: fail''"
    by (simp_all add: failError_def realError_def plainError_def)
  note inst = errSerializer_cause_chain [OF a ch d cycleHeap_run]
  from inst have m: "smessage \<lparr> stype = ''TypeError'', smessage = ''fail: real error: ...'',
                          scode = JUndefined, sdata = None,
                          sstack = Some (JStr (''TypeError: fail'' @
                                     (CHR 0x0A # ''caused by: Error: real error'') @ circularNote)) \<rparr>
       = joinColon (message failError # map (message \<circ> snd) [(JRef 1, realError)]) @ '': ...''"
    by simp
  from inst f have s: "sstack \<lparr> stype = ''TypeError'', smessage = ''fail: real error: ...'',
                          scode = JUndefined, sdata = None,
                          sstack = Some (JStr (''TypeError: fail'' @
                                     (CHR 0x0A # ''caused by: Error: real error'') @ circularNote)) \<rparr>
       = Some (JStr (''TypeError: fail'' @ concat (map (causedBy noString \<circ> snd) [(JRef 1, realError)])
                     @ circularNote))"
    by simp
  from inst t have n: "addCauseCalls noString cycleHeap
        \<lparr> stype = [], smessage = [], scode = JUndefined, sdata = None, sstack = None \<rparr>
        (errorCause cycleHeap failError) False [JRef 0] \<le> length [(JRef 1, realError)] + 1"
    by blast
  show ?thesis
    using a ch d cycleHeap_run m s n by (simp add: f)
qed

text \<open>
  Claim C6. The claim holds for the chains above, but not for every error: a cause that
  is \<open>null\<close> is not \<open>undefined\<close>, so \<open>addCause\<close> goes on and reads \<open>error.message\<close> of
  \<open>null\<close>. For an error with message \<open>fail\<close> and \<open>cause\<close> set to \<open>null\<close> the
  serializer throws a \<open>TypeError\<close> and returns no record, where the claim has a message
  of one or two segments.
\<close>

theorem errSerializer_null_cause_throws:
  "errSerializer noString [errorObj ((plainError ''Error'' ''fail'')\<lparr> cause := JNull \<rparr>)]
       (JRef 0) True
     = Some (Throw (TypeError ''Cannot read properties of null (reading message)''),
             [errorObj ((plainError ''Error'' ''fail'')\<lparr> cause := JNull \<rparr>)])"
  by (simp add: errSerializer_def errProps_def errorObj_def plainError_def
        errorCause_def errorName_def isError_def andThen_def safeJson_def safeJsonObject_Suc
        callToJSON_def addCause.simps messageOrSelf_def Let_def strictEq_def)

section \<open>Idempotence of the sanitizer\<close>

subsection \<open>Values a call leaves as they are\<close>

text \<open>
  \<open>refs stk\<close> are the addresses on the stack. \<open>plain d h S F v\<close>: within depth \<open>d\<close>,
  the value \<open>v\<close> is a primitive other than a bigint and \<open>NaN\<close>, or an object of the
  footprint \<open>F\<close> that is not among \<open>S\<close>, has no \<open>toJSON\<close>, and whose children are
  plain with the object added to \<open>S\<close>. Such a graph has no cycle, no bigint, no
  \<open>NaN\<close> and no \<open>toJSON\<close> method: nothing for the sanitizer to replace.
\<close>

definition refs :: "val list \<Rightarrow> nat set" where
  "refs stk = {a. JRef a \<in> set stk}"

fun plain :: "nat \<Rightarrow> heap \<Rightarrow> nat set \<Rightarrow> nat set \<Rightarrow> val \<Rightarrow> bool" where
  "plain 0 h S F v = False"
| "plain (Suc d) h S F v =
     (case v of
        JRef a \<Rightarrow> a \<notin> S \<and> a \<in> F \<and> a < length h \<and> toJSON (h ! a) = None \<and>
                  (\<forall>c \<in> set (bodyVals (body (h ! a))). plain d h (insert a S) F c)
      | JBigInt i \<Rightarrow> False
      | JNaN \<Rightarrow> False
      | _ \<Rightarrow> True)"

lemma refs_append [simp]: "refs (stk @ [JRef a]) = insert a (refs stk)"
  by (auto simp: refs_def)

lemma refs_mem: "JRef a \<in> set stk \<longleftrightarrow> a \<in> refs stk"
  by (simp add: refs_def)

lemma plain_not_NaN: "plain d h S F v \<Longrightarrow> v \<noteq> JNaN"
  by (cases d) auto

lemma plain_Suc_ref:
  "plain (Suc d) h S F (JRef a) \<longleftrightarrow>
     a \<notin> S \<and> a \<in> F \<and> a < length h \<and> toJSON (h ! a) = None \<and>
     (\<forall>c \<in> set (bodyVals (body (h ! a))). plain d h (insert a S) F c)"
  by simp

text \<open>A plain value stays plain in a heap that agrees on the footprint, with a larger
  footprint and with any other set \<open>S'\<close> that meets the footprint inside \<open>S\<close>.\<close>

lemma plain_transfer:
  "plain d h S F v \<Longrightarrow> (\<forall>x\<in>F. x < length h \<longrightarrow> h' ! x = h ! x) \<Longrightarrow> length h \<le> length h' \<Longrightarrow>
     S' \<inter> F \<subseteq> S \<Longrightarrow> F \<subseteq> F' \<Longrightarrow> plain d h' S' F' v"
proof (induction d arbitrary: v S S')
  case 0
  then show ?case by simp
next
  case (Suc d)
  show ?case
  proof (cases v)
    case (JRef a)
    from Suc.prems(1) JRef have a: "a \<notin> S" "a \<in> F" "a < length h" "toJSON (h ! a) = None"
      and ch: "\<forall>c \<in> set (bodyVals (body (h ! a))). plain d h (insert a S) F c"
      by simp_all
    from a Suc.prems(2) have eq: "h' ! a = h ! a" by blast
    have "plain d h' (insert a S') F' c" if "c \<in> set (bodyVals (body (h ! a)))" for c
    proof (rule Suc.IH [OF _ Suc.prems(2,3) _ Suc.prems(5)])
      show "plain d h (insert a S) F c" using ch that by blast
      show "insert a S' \<inter> F \<subseteq> insert a S" using Suc.prems(4) by blast
    qed
    with a eq Suc.prems(3,4,5) JRef show ?thesis by auto
  qed (use Suc.prems(1) in simp_all)
qed

text \<open>A call on a plain value returns the value itself, and the stack and the heap as
  they were: no copy is made.\<close>

lemma slotLoop_stable:
  "(\<And>sl. sl \<in> set sls \<Longrightarrow>
       f (getSlot h orig sl) (slotKey sl) stk h = Some (Done (getSlot h orig sl), stk, h)
       \<and> getSlot h orig sl \<noteq> JNaN) \<Longrightarrow>
     slotLoop f sls orig ob stk h = Some (Done ob, stk, h)"
  by (induction sls) (auto simp: strictEq_def)

lemma getSlot_bodyVals:
  assumes "sl \<in> set (slots (body (h ! a)))"
  shows "getSlot h a sl \<in> set (bodyVals (body (h ! a)))"
proof (cases "body (h ! a)")
  case (Array es)
  with assms obtain i where "sl = Index i" "i < length es" by auto
  with Array show ?thesis by (simp add: arrayGet_def)
next
  case (Object ps)
  with assms obtain k where k: "sl = Key k" "k \<in> fst ` set ps" by auto
  then obtain v where v: "map_of ps k = Some v"
    by (cases "map_of ps k") (auto simp: map_of_eq_None_iff)
  then have "(k, v) \<in> set ps" by (rule map_of_SomeD)
  then have "v \<in> snd ` set ps" by force
  with Object k v show ?thesis by (simp add: objectGet_def)
qed

lemma safeJsonObject_stable:
  "plain d h (refs stk) F v \<Longrightarrow> safeJsonObject d v k stk h = Some (Done v, stk, h)"
proof (induction d arbitrary: v k stk)
  case 0
  then show ?case by simp
next
  case (Suc d)
  show ?case
  proof (cases v)
    case (JRef a)
    from Suc.prems JRef have a: "a \<notin> refs stk" "a < length h" "toJSON (h ! a) = None"
      and ch: "\<forall>c \<in> set (bodyVals (body (h ! a))). plain d h (insert a (refs stk)) F c"
      by simp_all
    have conv: "callToJSON h (JRef a) k = JRef a"
      using a by (simp add: callToJSON_def)
    have "slotLoop (safeJsonObject d) (slots (body (h ! a))) a a (stk @ [JRef a]) h
            = Some (Done a, stk @ [JRef a], h)"
    proof (rule slotLoop_stable)
      fix sl assume "sl \<in> set (slots (body (h ! a)))"
      then have p: "plain d h (refs (stk @ [JRef a])) F (getSlot h a sl)"
        using ch getSlot_bodyVals by simp
      from Suc.IH [OF p] plain_not_NaN [OF p]
      show "safeJsonObject d (getSlot h a sl) (slotKey sl) (stk @ [JRef a]) h
                   = Some (Done (getSlot h a sl), stk @ [JRef a], h)
              \<and> getSlot h a sl \<noteq> JNaN"
        by simp
    qed
    with a conv JRef show ?thesis
      by (simp add: safeJsonObject_Suc refs_mem)
  qed (use Suc.prems in \<open>simp_all add: safeJsonObject_Suc callToJSON_def\<close>)
qed

subsection \<open>Reading a slot after a write\<close>

lemma map_of_assocSet_other: "k' \<noteq> k \<Longrightarrow> map_of (assocSet ps k v) k' = map_of ps k'"
  by (induction ps) auto

lemma map_of_assocSet_same: "map_of (assocSet ps k v) k = Some v"
  by (induction ps) auto

lemma keys_assocSet: "k \<in> fst ` set ps \<Longrightarrow> map fst (assocSet ps k v) = map fst ps"
proof (induction ps)
  case Nil
  then show ?case by simp
next
  case (Cons p ps)
  obtain k' v' where p: "p = (k', v')" by (cases p)
  show ?case
  proof (cases "k' = k")
    case True
    with p show ?thesis by simp
  next
    case False
    with Cons.prems p have "k \<in> fst ` set ps" by auto
    with Cons.IH False p show ?thesis by simp
  qed
qed

lemma slots_assocSet:
  assumes "k \<in> fst ` set ps"
  shows "slots (Object (assocSet ps k v)) = slots (Object ps)"
  using keys_assocSet [OF assms, of v] by simp

lemma body_setSlot_other: "b \<noteq> a \<Longrightarrow> body (setSlot h a sl v ! b) = body (h ! b)"
  by (simp add: nth_setSlot_other)

lemma getSlot_cong: "body (h' ! a') = body (h ! a) \<Longrightarrow> getSlot h' a' sl = getSlot h a sl"
  by (cases sl) (simp_all add: arrayGet_def objectGet_def)

lemma getSlot_setSlot_other_obj: "b \<noteq> a \<Longrightarrow> getSlot (setSlot h a sl v) b sl' = getSlot h b sl'"
  by (rule getSlot_cong) (simp add: body_setSlot_other)

lemma getSlot_setSlot_other_slot:
  assumes "sl' \<noteq> sl"
  shows "getSlot (setSlot h a sl v) a sl' = getSlot h a sl'"
proof (cases "a < length h")
  case False
  then have "setSlot h a sl v = h"
    by (cases sl) (auto simp: arraySet_def objectSet_def list_update_beyond split: body.splits)
  then show ?thesis by simp
next
  case True
  show ?thesis
  proof (cases "body (h ! a)")
    case (Array es)
    with True assms show ?thesis
      by (cases sl; cases sl') (auto simp: arraySet_def objectSet_def arrayGet_def objectGet_def)
  next
    case (Object ps)
    with True assms show ?thesis
      by (cases sl; cases sl')
         (auto simp: arraySet_def objectSet_def arrayGet_def objectGet_def map_of_assocSet_other)
  qed
qed

lemma getSlot_setSlot_same:
  assumes "a < length h" and "sl \<in> set (slots (body (h ! a)))"
  shows "getSlot (setSlot h a sl v) a sl = v"
proof (cases "body (h ! a)")
  case (Array es)
  with assms show ?thesis by (auto simp: arraySet_def arrayGet_def)
next
  case (Object ps)
  with assms show ?thesis by (auto simp: objectSet_def objectGet_def map_of_assocSet_same)
qed

lemma slots_setSlot:
  assumes "a < length h" and "sl \<in> set (slots (body (h ! a)))"
  shows "slots (body (setSlot h a sl v ! a)) = slots (body (h ! a))"
proof (cases "body (h ! a)")
  case (Array es)
  with assms show ?thesis by (auto simp: arraySet_def)
next
  case (Object ps)
  with assms obtain k where sl: "sl = Key k" and k: "k \<in> fst ` set ps" by auto
  from Object assms(1) have "body (setSlot h a sl v ! a) = Object (assocSet ps k v)"
    by (simp add: sl objectSet_def)
  with Object slots_assocSet [OF k, of v] show ?thesis by (simp del: slots.simps)
qed

lemma body_copy: "body ((h @ [copyOf (h ! a)]) ! length h) = body (h ! a)"
  by simp

lemma toJSON_copyOf: "toJSON ob = None \<Longrightarrow> toJSON (copyOf ob) = None"
  by (simp add: copyOf_def split: body.splits)

lemma nth_append_old: "a < length h \<Longrightarrow> (h @ ext) ! a = h ! a"
  by (simp add: nth_append)

lemma keeps_nth: "keeps N h h' \<Longrightarrow> a < N \<Longrightarrow> h' ! a = h ! a"
  by (simp add: keeps_def)

subsection \<open>The result of a call is plain\<close>

text \<open>
  \<open>clean N h\<close>: the heap is closed below \<open>N\<close>; what a \<open>toJSON\<close> method of an object
  below \<open>N\<close> returns is a primitive other than \<open>null\<close> and \<open>NaN\<close> or an object that
  has no \<open>toJSON\<close> itself; no element and no property value is \<open>NaN\<close>; and the keys
  of an object are distinct, as the own properties of a JavaScript object are.
  \<open>argOK\<close>: a value of that part of the heap. \<open>stackOK\<close>: a stack of objects of it.
  \<open>childFoot\<close> is the footprint of the slots of the container \<open>ob\<close> in a loop
  entered with a heap of \<open>L\<close> objects: the input objects, and the objects allocated
  since, the container apart. \<open>callFoot\<close> is the footprint of the result of a call:
  the input objects and those the call allocated.
\<close>

definition okConv :: "nat \<Rightarrow> heap \<Rightarrow> val \<Rightarrow> bool" where
  "okConv N h w =
     (case w of
        JRef b \<Rightarrow> b < N \<and> toJSON (h ! b) = None
      | JNull \<Rightarrow> False
      | JNaN \<Rightarrow> False
      | _ \<Rightarrow> True)"

definition clean :: "nat \<Rightarrow> heap \<Rightarrow> bool" where
  "clean N h =
     (closedBelow N h \<and>
      (\<forall>a<N. (\<forall>how f h' k. toJSON (h ! a) = Some (how, f) \<and> keeps N h h' \<longrightarrow>
                 okConv N h (f (map body h') a k)) \<and>
              (case body (h ! a) of Object ps \<Rightarrow> distinct (map fst ps) | Array es \<Rightarrow> True) \<and>
              JNaN \<notin> set (bodyVals (body (h ! a)))))"

definition argOK :: "nat \<Rightarrow> val \<Rightarrow> bool" where
  "argOK N v = (refOK N v \<and> v \<noteq> JNaN)"

definition stackOK :: "nat \<Rightarrow> val list \<Rightarrow> bool" where
  "stackOK N stk = (\<forall>w \<in> set stk. \<exists>a. w = JRef a \<and> a < N)"

lemma clean_closed: "clean N h \<Longrightarrow> closedBelow N h"
  by (simp add: clean_def)

lemma clean_okConv:
  "clean N h \<Longrightarrow> a < N \<Longrightarrow> toJSON (h ! a) = Some (how, f) \<Longrightarrow> keeps N h h' \<Longrightarrow>
     okConv N h (f (map body h') a k)"
  unfolding clean_def by blast

lemma clean_keeps:
  assumes c: "clean N h" and k: "keeps N h h'"
  shows "clean N h'"
proof -
  have same: "\<And>a. a < N \<Longrightarrow> h' ! a = h ! a" using k by (simp add: keeps_def)
  have 1: "closedBelow N h'" using clean_closed [OF c] k by (rule closedBelow_keeps)
  have 2: "okConv N h' (f (map body h'') a kk)"
    if a: "a < N" and t: "toJSON (h' ! a) = Some (how, f)" and k2: "keeps N h' h''"
    for a how f h'' kk
  proof -
    from t same [OF a] have t': "toJSON (h ! a) = Some (how, f)" by simp
    from k k2 have "keeps N h h''" by (rule keeps_trans)
    from clean_okConv [OF c a t' this, of kk] same show ?thesis
      by (auto simp: okConv_def split: val.splits)
  qed
  have 3: "(case body (h' ! a) of Object ps \<Rightarrow> distinct (map fst ps) | Array es \<Rightarrow> True)
             \<and> JNaN \<notin> set (bodyVals (body (h' ! a)))" if "a < N" for a
    using c that same [OF that] by (simp add: clean_def)
  from 1 2 3 show ?thesis unfolding clean_def by blast
qed

lemma clean_calm: "clean N h \<Longrightarrow> calm N h"
  unfolding calm_def
proof (intro allI impI)
  fix a how f h' k
  assume c: "clean N h" and a: "a < N" and t: "toJSON (h ! a) = Some (how, f) \<and> keeps N h h'"
  from clean_okConv [OF c a, of how f h' k] t show "f (map body h') a k \<noteq> JNull"
    by (auto simp: okConv_def)
qed

lemma clean_distinct_slots:
  assumes "clean N h" and "a < N"
  shows "distinct (slots (body (h ! a)))"
proof (cases "body (h ! a)")
  case (Array es)
  then show ?thesis by (simp add: distinct_map inj_on_def)
next
  case (Object ps)
  with assms have "distinct (map fst ps)" by (auto simp: clean_def)
  with Object show ?thesis by (simp add: distinct_map inj_on_def)
qed

lemma clean_getSlot:
  assumes c: "clean N h" and a: "a < N"
  shows "argOK N (getSlot h a sl)"
proof -
  have r: "refOK N (getSlot h a sl)" using clean_closed [OF c] a by (rule refOK_getSlot)
  have "getSlot h a sl \<noteq> JNaN"
  proof
    assume n: "getSlot h a sl = JNaN"
    have "JNaN \<in> set (bodyVals (body (h ! a)))"
    proof (cases "body (h ! a)")
      case (Array es)
      with n show ?thesis
        by (cases sl) (auto simp: arrayGet_def objectGet_def split: if_splits dest: nth_mem)
    next
      case (Object ps)
      with n obtain k where "map_of ps k = Some JNaN"
        by (cases sl) (auto simp: arrayGet_def objectGet_def split: option.splits)
      then have "(k, JNaN) \<in> set ps" by (rule map_of_SomeD)
      then have "JNaN \<in> snd ` set ps" by force
      with Object show ?thesis by simp
    qed
    with c a show False by (simp add: clean_def)
  qed
  with r show ?thesis by (simp add: argOK_def)
qed

text \<open>On a clean heap the conversion of an argument gives a primitive, or the argument
  itself when it has no \<open>toJSON\<close>, or another object that has none.\<close>

lemma clean_callToJSON:
  assumes c: "clean N h" and v: "v = JRef a" and a: "a < N"
  shows "okConv N h (callToJSON h v k)"
proof -
  have l: "a < length h" using clean_closed [OF c] a by (simp add: closedBelow_def)
  show ?thesis
  proof (cases "toJSON (h ! a)")
    case None
    with v a l show ?thesis by (simp add: callToJSON_def okConv_def)
  next
    case (Some m)
    obtain how f where m: "m = (how, f)" by (cases m)
    from clean_okConv [OF c a Some [unfolded m] keeps_refl, of k]
    show ?thesis using v l Some m by (simp add: callToJSON_def)
  qed
qed

definition childFoot :: "nat \<Rightarrow> nat \<Rightarrow> heap \<Rightarrow> nat \<Rightarrow> nat set" where
  "childFoot N L h ob = {x. x < N \<or> (L \<le> x \<and> x < length h \<and> x \<noteq> ob)}"

definition callFoot :: "nat \<Rightarrow> heap \<Rightarrow> heap \<Rightarrow> nat set" where
  "callFoot N h h' = {x. x < N \<or> (length h \<le> x \<and> x < length h')}"

text \<open>
  What holds when a call is made with the stack \<open>stk\<close> on the value \<open>v\<close>, besides
  the stack: the set \<open>C\<close> of the containers that the calls in progress traverse (the
  converted objects, where the stack has the arguments). Each container has a slot
  whose value is on the stack once \<open>v\<close> is pushed, as the traversal went through it;
  and an argument on the stack that has no \<open>toJSON\<close> is its own container.
  \<open>outPlain N n stk C f\<close>: a call of \<open>f\<close> made so that returns a value returns one
  that is plain within depth \<open>n\<close> and has none of the stack and none of the containers
  in it.
\<close>

definition callPre :: "nat \<Rightarrow> val list \<Rightarrow> nat set \<Rightarrow> heap \<Rightarrow> val \<Rightarrow> bool" where
  "callPre N stk C h v =
     (clean N h \<and> argOK N v \<and> stackOK N stk \<and> (\<forall>b \<in> C. b < N) \<and>
      (\<forall>b \<in> C. \<exists>sl \<in> set (slots (body (h ! b))). getSlot h b sl \<in> set (stk @ [v])) \<and>
      (\<forall>s \<in> refs stk. toJSON (h ! s) = None \<longrightarrow> s \<in> C))"

definition outPlain :: "nat \<Rightarrow> nat \<Rightarrow> val list \<Rightarrow> nat set \<Rightarrow> sanitizer \<Rightarrow> bool" where
  "outPlain N n stk C f =
     (\<forall>v k h v' stk' h'. f v k stk h = Some (Done v', stk', h') \<and> callPre N stk C h v \<longrightarrow>
        plain n h' (refs stk \<union> C) (callFoot N h h') v')"

lemma outPlainD:
  "outPlain N n stk C f \<Longrightarrow> f v k stk h = Some (Done v', stk', h') \<Longrightarrow> callPre N stk C h v \<Longrightarrow>
     plain n h' (refs stk \<union> C) (callFoot N h h') v'"
  unfolding outPlain_def by blast

text \<open>
  The invariant of the loop over the slots of \<open>orig\<close>, with \<open>ob\<close> the container
  written so far (\<open>orig\<close> itself until the first replacement, its copy afterwards):
  the slots \<open>rest\<close> still to visit are slots of \<open>ob\<close> that hold what \<open>orig\<close>
  holds, the slots \<open>past\<close> already visited hold plain values, and \<open>ob\<close> has no
  \<open>toJSON\<close>.
\<close>

definition loopInv ::
    "nat \<Rightarrow> nat \<Rightarrow> nat set \<Rightarrow> nat \<Rightarrow> nat \<Rightarrow> heap \<Rightarrow> nat \<Rightarrow> slot set \<Rightarrow> slot list \<Rightarrow> bool" where
  "loopInv N L S0 n orig h ob past rest =
     (clean N h \<and> L \<le> length h \<and> ob < length h \<and> (ob = orig \<or> L \<le> ob) \<and>
      toJSON (h ! ob) = None \<and>
      (\<forall>sl \<in> set rest. sl \<in> set (slots (body (h ! ob))) \<and> getSlot h ob sl = getSlot h orig sl) \<and>
      (\<forall>sl \<in> past. plain n h (insert ob S0) (childFoot N L h ob) (getSlot h ob sl)))"

lemma loopInv_advance:
  assumes inv: "loopInv N L S0 n orig h ob past rest" and k: "keeps (length h) h h1"
    and oN: "orig < N" and NL: "N \<le> L"
  shows "loopInv N L S0 n orig h1 ob past rest"
proof -
  from inv have c: "clean N h" and L: "L \<le> length h" and ob: "ob < length h" "ob = orig \<or> L \<le> ob"
    and tj: "toJSON (h ! ob) = None"
    and r: "\<forall>sl \<in> set rest. sl \<in> set (slots (body (h ! ob))) \<and> getSlot h ob sl = getSlot h orig sl"
    and d: "\<forall>sl \<in> past. plain n h (insert ob S0) (childFoot N L h ob) (getSlot h ob sl)"
    by (simp_all add: loopInv_def)
  from k have len: "length h \<le> length h1" and same: "\<And>a. a < length h \<Longrightarrow> h1 ! a = h ! a"
    by (simp_all add: keeps_def)
  from oN NL L have o: "orig < length h" by simp
  have e_ob: "h1 ! ob = h ! ob" using same ob by simp
  have e_orig: "h1 ! orig = h ! orig" using same o by simp
  have g_ob: "\<And>sl. getSlot h1 ob sl = getSlot h ob sl"
    by (rule getSlot_cong) (simp add: e_ob)
  have g_orig: "\<And>sl. getSlot h1 orig sl = getSlot h orig sl"
    by (rule getSlot_cong) (simp add: e_orig)
  from NL L have "N \<le> length h" by simp
  with k have "keeps N h h1" by (rule keeps_mono)
  with c have c1: "clean N h1" by (rule clean_keeps)
  have d1: "\<forall>sl \<in> past. plain n h1 (insert ob S0) (childFoot N L h1 ob) (getSlot h1 ob sl)"
  proof
    fix sl assume "sl \<in> past"
    with d have "plain n h (insert ob S0) (childFoot N L h ob) (getSlot h ob sl)" by simp
    then have "plain n h1 (insert ob S0) (childFoot N L h1 ob) (getSlot h ob sl)"
      by (rule plain_transfer) (use same len in \<open>auto simp: childFoot_def\<close>)
    then show "plain n h1 (insert ob S0) (childFoot N L h1 ob) (getSlot h1 ob sl)"
      by (simp add: g_ob)
  qed
  from c1 L len ob tj r d1 show ?thesis
    by (simp add: loopInv_def e_ob g_ob g_orig)
qed

lemma loopInv_same:
  assumes inv: "loopInv N L S0 n orig h1 ob past (sl # rest)"
    and pj: "plain n h1 (insert ob S0) (childFoot N L h1 ob) (getSlot h1 orig sl)"
  shows "loopInv N L S0 n orig h1 ob (insert sl past) rest"
proof -
  from inv have "getSlot h1 ob sl = getSlot h1 orig sl" by (simp add: loopInv_def)
  with pj have "plain n h1 (insert ob S0) (childFoot N L h1 ob) (getSlot h1 ob sl)" by simp
  with inv show ?thesis by (simp add: loopInv_def)
qed

lemma loopInv_write:
  assumes inv: "loopInv N L S0 n orig h1 ob past (sl # rest)" and ne: "ob \<noteq> orig"
    and pj: "plain n h1 (insert ob S0) (childFoot N L h1 ob) jv"
    and nd: "sl \<notin> past" and nr: "sl \<notin> set rest" and oN: "orig < N" and NL: "N \<le> L"
  shows "loopInv N L S0 n orig (setSlot h1 ob sl jv) ob (insert sl past) rest
         \<and> slots (body (setSlot h1 ob sl jv ! ob)) = slots (body (h1 ! ob))"
proof -
  let ?h2 = "setSlot h1 ob sl jv"
  from inv ne have c: "clean N h1" and L: "L \<le> length h1" and ob: "ob < length h1" "L \<le> ob"
    and tj: "toJSON (h1 ! ob) = None"
    and v: "sl \<in> set (slots (body (h1 ! ob)))"
    and r: "\<forall>s \<in> set rest. s \<in> set (slots (body (h1 ! ob))) \<and> getSlot h1 ob s = getSlot h1 orig s"
    and d: "\<forall>s \<in> past. plain n h1 (insert ob S0) (childFoot N L h1 ob) (getSlot h1 ob s)"
    by (simp_all add: loopInv_def)
  have len: "length ?h2 = length h1" by (rule length_setSlot)
  have sl_eq: "slots (body (?h2 ! ob)) = slots (body (h1 ! ob))"
    using ob(1) v by (rule slots_setSlot)
  have new: "getSlot ?h2 ob sl = jv" using ob(1) v by (rule getSlot_setSlot_same)
  have old: "\<And>s. s \<noteq> sl \<Longrightarrow> getSlot ?h2 ob s = getSlot h1 ob s"
    by (rule getSlot_setSlot_other_slot)
  have g_orig: "\<And>s. getSlot ?h2 orig s = getSlot h1 orig s"
    using ne by (simp add: getSlot_setSlot_other_obj)
  from NL ob(2) have "N \<le> ob" by simp
  then have "keeps N h1 ?h2" by (rule keeps_setSlot)
  with c have c2: "clean N ?h2" by (rule clean_keeps)
  have foot: "childFoot N L ?h2 ob = childFoot N L h1 ob" by (simp add: childFoot_def len)
  have tr: "\<And>w. plain n h1 (insert ob S0) (childFoot N L h1 ob) w \<Longrightarrow>
                 plain n ?h2 (insert ob S0) (childFoot N L ?h2 ob) w"
  proof -
    fix w assume "plain n h1 (insert ob S0) (childFoot N L h1 ob) w"
    then show "plain n ?h2 (insert ob S0) (childFoot N L ?h2 ob) w"
      unfolding foot
      by (rule plain_transfer)
         (use \<open>N \<le> ob\<close> in \<open>auto simp: childFoot_def len nth_setSlot_other\<close>)
  qed
  have r2: "\<forall>s \<in> set rest. s \<in> set (slots (body (?h2 ! ob))) \<and> getSlot ?h2 ob s = getSlot ?h2 orig s"
  proof
    fix s assume s: "s \<in> set rest"
    with nr have "s \<noteq> sl" by auto
    with s r show "s \<in> set (slots (body (?h2 ! ob))) \<and> getSlot ?h2 ob s = getSlot ?h2 orig s"
      by (simp add: sl_eq old g_orig)
  qed
  have d2: "\<forall>s \<in> insert sl past. plain n ?h2 (insert ob S0) (childFoot N L ?h2 ob) (getSlot ?h2 ob s)"
  proof
    fix s assume s: "s \<in> insert sl past"
    show "plain n ?h2 (insert ob S0) (childFoot N L ?h2 ob) (getSlot ?h2 ob s)"
    proof (cases "s = sl")
      case True
      with tr [OF pj] new show ?thesis by simp
    next
      case False
      with s d have "plain n h1 (insert ob S0) (childFoot N L h1 ob) (getSlot h1 ob s)" by simp
      from tr [OF this] False show ?thesis by (simp add: old)
    qed
  qed
  have tj2: "toJSON (?h2 ! ob) = None" using toJSON_setSlot [OF ob(1), of sl jv] tj by simp
  from c2 L ob tj2 r2 d2 have "loopInv N L S0 n orig ?h2 ob (insert sl past) rest"
    unfolding loopInv_def len by simp
  with sl_eq show ?thesis by simp
qed

lemma loopInv_copy:
  assumes inv: "loopInv N L S0 n orig h1 orig past (sl # rest)"
    and pj: "plain n h1 (insert orig S0) (childFoot N L h1 orig) jv"
    and nd: "sl \<notin> past" and nr: "sl \<notin> set rest" and oN: "orig < N" and NL: "N \<le> L"
  shows "loopInv N L S0 n orig (setSlot (h1 @ [copyOf (h1 ! orig)]) (length h1) sl jv) (length h1)
           (insert sl past) rest
         \<and> slots (body (setSlot (h1 @ [copyOf (h1 ! orig)]) (length h1) sl jv ! length h1))
             = slots (body (h1 ! orig))"
proof -
  let ?c = "length h1"
  let ?hc = "h1 @ [copyOf (h1 ! orig)]"
  let ?h2 = "setSlot ?hc ?c sl jv"
  from inv have c: "clean N h1" and L: "L \<le> length h1"
    and tj: "toJSON (h1 ! orig) = None"
    and v: "sl \<in> set (slots (body (h1 ! orig)))"
    and r: "\<forall>s \<in> set rest. s \<in> set (slots (body (h1 ! orig)))"
    and d: "\<forall>s \<in> past. plain n h1 (insert orig S0) (childFoot N L h1 orig) (getSlot h1 orig s)"
    by (simp_all add: loopInv_def)
  from oN NL L have o: "orig < ?c" by simp
  have len: "length ?h2 = Suc ?c" by (simp add: length_setSlot)
  have bc: "body (?hc ! ?c) = body (h1 ! orig)" by (rule body_copy)
  have cl: "?c < length ?hc" by simp
  from v bc have vc: "sl \<in> set (slots (body (?hc ! ?c)))" by simp
  have sl_eq: "slots (body (?h2 ! ?c)) = slots (body (h1 ! orig))"
    using slots_setSlot [OF cl vc, of jv] bc by simp
  have new: "getSlot ?h2 ?c sl = jv" using cl vc by (rule getSlot_setSlot_same)
  have old: "\<And>s. s \<noteq> sl \<Longrightarrow> getSlot ?h2 ?c s = getSlot h1 orig s"
  proof -
    fix s :: slot assume "s \<noteq> sl"
    then have "getSlot ?h2 ?c s = getSlot ?hc ?c s" by (rule getSlot_setSlot_other_slot)
    also have "\<dots> = getSlot h1 orig s" using bc by (rule getSlot_cong)
    finally show "getSlot ?h2 ?c s = getSlot h1 orig s" .
  qed
  have below: "\<And>b. b < ?c \<Longrightarrow> ?h2 ! b = h1 ! b"
    by (simp add: nth_setSlot_other nth_append)
  have g_orig: "\<And>s. getSlot ?h2 orig s = getSlot h1 orig s"
    by (rule getSlot_cong) (simp add: below o)
  from NL L have Nc: "N \<le> ?c" by simp
  then have "keeps N h1 ?hc" by (rule keeps_append)
  moreover from Nc have "keeps N ?hc ?h2" by (rule keeps_setSlot)
  ultimately have "keeps N h1 ?h2" by (rule keeps_trans)
  with c have c2: "clean N ?h2" by (rule clean_keeps)
  have tr: "\<And>w. plain n h1 (insert orig S0) (childFoot N L h1 orig) w \<Longrightarrow>
                 plain n ?h2 (insert ?c S0) (childFoot N L ?h2 ?c) w"
  proof -
    fix w assume "plain n h1 (insert orig S0) (childFoot N L h1 orig) w"
    then show "plain n ?h2 (insert ?c S0) (childFoot N L ?h2 ?c) w"
    proof (rule plain_transfer)
      show "\<forall>x \<in> childFoot N L h1 orig. x < length h1 \<longrightarrow> ?h2 ! x = h1 ! x"
        using below by simp
      show "length h1 \<le> length ?h2" by (simp add: len)
      show "insert ?c S0 \<inter> childFoot N L h1 orig \<subseteq> insert orig S0"
        using Nc by (auto simp: childFoot_def)
      show "childFoot N L h1 orig \<subseteq> childFoot N L ?h2 ?c"
        unfolding childFoot_def len by auto
    qed
  qed
  have r2: "\<forall>s \<in> set rest. s \<in> set (slots (body (?h2 ! ?c))) \<and> getSlot ?h2 ?c s = getSlot ?h2 orig s"
  proof
    fix s assume s: "s \<in> set rest"
    with nr have "s \<noteq> sl" by auto
    with s r show "s \<in> set (slots (body (?h2 ! ?c))) \<and> getSlot ?h2 ?c s = getSlot ?h2 orig s"
      by (simp add: sl_eq old g_orig)
  qed
  have d2: "\<forall>s \<in> insert sl past. plain n ?h2 (insert ?c S0) (childFoot N L ?h2 ?c) (getSlot ?h2 ?c s)"
  proof
    fix s assume s: "s \<in> insert sl past"
    show "plain n ?h2 (insert ?c S0) (childFoot N L ?h2 ?c) (getSlot ?h2 ?c s)"
    proof (cases "s = sl")
      case True
      with tr [OF pj] new show ?thesis by simp
    next
      case False
      with s d have "plain n h1 (insert orig S0) (childFoot N L h1 orig) (getSlot h1 orig s)" by simp
      from tr [OF this] False show ?thesis by (simp add: old)
    qed
  qed
  from L have L2: "L \<le> length ?h2" by (simp add: len)
  have "toJSON (?h2 ! ?c) = toJSON (?hc ! ?c)" using cl by (rule toJSON_setSlot)
  also have "\<dots> = None" using tj by (simp add: toJSON_copyOf)
  finally have tj2: "toJSON (?h2 ! ?c) = None" .
  have "?c < length ?h2" by (simp add: len)
  with c2 L2 L tj2 r2 d2 have "loopInv N L S0 n orig ?h2 ?c (insert sl past) rest"
    unfolding loopInv_def by simp
  with sl_eq show ?thesis by simp
qed

text \<open>
  \<open>loopPre\<close>: what the loop over the slots of the container \<open>orig\<close> keeps for its
  calls, made with the stack \<open>stk1\<close> and the containers \<open>C1\<close>, \<open>orig\<close> among them.
\<close>

definition loopPre :: "nat \<Rightarrow> val list \<Rightarrow> nat set \<Rightarrow> nat \<Rightarrow> heap \<Rightarrow> bool" where
  "loopPre N stk1 C1 orig h =
     (stackOK N stk1 \<and> (\<forall>b \<in> C1. b < N) \<and> orig \<in> C1 \<and>
      (\<forall>b \<in> C1. b \<noteq> orig \<longrightarrow> (\<exists>sl \<in> set (slots (body (h ! b))). getSlot h b sl \<in> set stk1)) \<and>
      (\<forall>s \<in> refs stk1. toJSON (h ! s) = None \<longrightarrow> s \<in> C1))"

lemma loopPre_keeps:
  assumes p: "loopPre N stk1 C1 orig h" and k: "keeps N h h'"
  shows "loopPre N stk1 C1 orig h'"
proof -
  have same: "\<And>a. a < N \<Longrightarrow> h' ! a = h ! a" using k by (simp add: keeps_def)
  from p have so: "stackOK N stk1" and CN: "\<forall>b \<in> C1. b < N" and oC: "orig \<in> C1"
    and fr: "\<forall>b \<in> C1. b \<noteq> orig \<longrightarrow> (\<exists>sl \<in> set (slots (body (h ! b))). getSlot h b sl \<in> set stk1)"
    and tj: "\<forall>s \<in> refs stk1. toJSON (h ! s) = None \<longrightarrow> s \<in> C1"
    by (simp_all add: loopPre_def)
  have fr': "\<forall>b \<in> C1. b \<noteq> orig \<longrightarrow> (\<exists>sl \<in> set (slots (body (h' ! b))). getSlot h' b sl \<in> set stk1)"
  proof (intro ballI impI)
    fix b assume b: "b \<in> C1" "b \<noteq> orig"
    with CN have "b < N" by simp
    then have e: "h' ! b = h ! b" by (rule same)
    have g: "\<And>sl. getSlot h' b sl = getSlot h b sl" by (rule getSlot_cong) (simp add: e)
    from fr b show "\<exists>sl \<in> set (slots (body (h' ! b))). getSlot h' b sl \<in> set stk1"
      by (simp add: e g)
  qed
  have tj': "\<forall>s \<in> refs stk1. toJSON (h' ! s) = None \<longrightarrow> s \<in> C1"
  proof (intro ballI impI)
    fix s assume s: "s \<in> refs stk1" and t: "toJSON (h' ! s) = None"
    from s so have "s < N" by (auto simp: stackOK_def refs_def)
    with t same have "toJSON (h ! s) = None" by simp
    with tj s show "s \<in> C1" by simp
  qed
  from so CN oC fr' tj' show ?thesis by (simp add: loopPre_def)
qed

lemma loopPre_callPre:
  assumes p: "loopPre N stk1 C1 orig h" and c: "clean N h"
    and sl: "sl \<in> set (slots (body (h ! orig)))"
  shows "callPre N stk1 C1 h (getSlot h orig sl)"
proof -
  from p have so: "stackOK N stk1" and CN: "\<forall>b \<in> C1. b < N" and oC: "orig \<in> C1"
    and fr: "\<forall>b \<in> C1. b \<noteq> orig \<longrightarrow> (\<exists>sl \<in> set (slots (body (h ! b))). getSlot h b sl \<in> set stk1)"
    and tj: "\<forall>s \<in> refs stk1. toJSON (h ! s) = None \<longrightarrow> s \<in> C1"
    by (simp_all add: loopPre_def)
  from CN oC have oN: "orig < N" by simp
  have a: "argOK N (getSlot h orig sl)" using c oN by (rule clean_getSlot)
  have fr': "\<forall>b \<in> C1. \<exists>s \<in> set (slots (body (h ! b))).
               getSlot h b s \<in> set (stk1 @ [getSlot h orig sl])"
  proof
    fix b assume b: "b \<in> C1"
    show "\<exists>s \<in> set (slots (body (h ! b))). getSlot h b s \<in> set (stk1 @ [getSlot h orig sl])"
    proof (cases "b = orig")
      case True
      with sl show ?thesis by auto
    next
      case False
      with fr b obtain s where "s \<in> set (slots (body (h ! b)))" "getSlot h b s \<in> set stk1"
        by blast
      then show ?thesis by auto
    qed
  qed
  from c a so CN fr' tj show ?thesis by (simp add: callPre_def)
qed

lemma callPre_loopPre:
  assumes p: "callPre N stk C h v" and v: "v = JRef a" and conv: "callToJSON h v k = JRef orig"
  shows "loopPre N (stk @ [v]) (insert orig C) orig h \<and> orig < N \<and> toJSON (h ! orig) = None"
proof -
  from p have c: "clean N h" and av: "argOK N v" and so: "stackOK N stk" and CN: "\<forall>b \<in> C. b < N"
    and fr: "\<forall>b \<in> C. \<exists>sl \<in> set (slots (body (h ! b))). getSlot h b sl \<in> set (stk @ [v])"
    and tj: "\<forall>s \<in> refs stk. toJSON (h ! s) = None \<longrightarrow> s \<in> C"
    by (simp_all add: callPre_def)
  from av v have aN: "a < N" by (simp add: argOK_def refOK_def)
  from clean_closed [OF c] aN have al: "a < length h" by (simp add: closedBelow_def)
  from clean_callToJSON [OF c v aN, of k] conv
  have oN: "orig < N" and ot: "toJSON (h ! orig) = None" by (simp_all add: okConv_def)
  have so1: "stackOK N (stk @ [v])" using so v aN by (simp add: stackOK_def)
  have CN1: "\<forall>b \<in> insert orig C. b < N" using CN oN by simp
  have fr1: "\<forall>b \<in> insert orig C. b \<noteq> orig \<longrightarrow>
               (\<exists>sl \<in> set (slots (body (h ! b))). getSlot h b sl \<in> set (stk @ [v]))"
    using fr by blast
  have tj1: "\<forall>s \<in> refs (stk @ [v]). toJSON (h ! s) = None \<longrightarrow> s \<in> insert orig C"
  proof (intro ballI impI)
    fix s assume s: "s \<in> refs (stk @ [v])" and t: "toJSON (h ! s) = None"
    show "s \<in> insert orig C"
    proof (cases "s = a")
      case True
      with t v al have "callToJSON h v k = JRef a" by (simp add: callToJSON_def)
      with conv True show ?thesis by simp
    next
      case False
      with s v have "s \<in> refs stk" by simp
      with tj t show ?thesis by simp
    qed
  qed
  from so1 CN1 fr1 tj1 oN ot show ?thesis by (simp add: loopPre_def)
qed

text \<open>A call on an object that is on the stack does not return the object: it returns
  \<open>'[Circular]'\<close>, or the primitive that its \<open>toJSON\<close> gave this time.\<close>

lemma safeJsonObject_on_stack:
  "JRef s \<in> set stk \<Longrightarrow> safeJsonObject n (JRef s) k stk h = Some (Done jv, stk', h') \<Longrightarrow>
     jv \<noteq> JRef s"
  by (cases n) (auto simp: safeJsonObject_Suc circular_def split: val.splits)

text \<open>Once the loop has copied the container it returns the copy; and it copies the
  container when one of the slots holds a value whose call returns another value.\<close>

lemma slotLoop_ob:
  "slotLoop f sls orig ob stk h = Some (Done ob', stk', h') \<Longrightarrow> ob \<noteq> orig \<Longrightarrow> ob' = ob"
  by (induction sls arbitrary: stk h)
     (auto split: option.splits outcome.splits prod.splits if_splits)

lemma slotLoop_changed:
  assumes fr: "framed f"
    and ch: "\<And>k h jv stk' h'. f w k stk h = Some (Done jv, stk', h') \<Longrightarrow> jv \<noteq> w"
  shows "slotLoop f sls orig orig stk h = Some (Done ob', stk', h') \<Longrightarrow> orig < length h \<Longrightarrow>
         sl0 \<in> set sls \<Longrightarrow> getSlot h orig sl0 = w \<Longrightarrow> ob' \<noteq> orig"
proof (induction sls arbitrary: h)
  case Nil
  then show ?case by simp
next
  case (Cons sl rest)
  note run = Cons.prems(1)
  from run obtain r1 stk2 h1 where
    call: "f (getSlot h orig sl) (slotKey sl) stk h = Some (r1, stk2, h1)"
    by (cases "f (getSlot h orig sl) (slotKey sl) stk h") auto
  from run call obtain jv where r1: "r1 = Done jv" by (cases r1) auto
  from framedD [OF fr call] r1 have k: "keeps (length h) h h1" and stk2: "stk2 = stk"
    by simp_all
  from k Cons.prems(2) have o1: "orig < length h1" and e: "h1 ! orig = h ! orig"
    by (simp_all add: keeps_def)
  show ?case
  proof (cases "strictEq (getSlot h orig sl) jv")
    case True
    with run call r1 stk2
    have run2: "slotLoop f rest orig orig stk h1 = Some (Done ob', stk', h')" by simp
    have ne: "sl \<noteq> sl0"
    proof
      assume eq: "sl = sl0"
      with True Cons.prems(4) have "jv = w" by (simp add: strictEq_def)
      moreover from call r1 eq Cons.prems(4) have "f w (slotKey sl) stk h = Some (Done jv, stk2, h1)"
        by simp
      then have "jv \<noteq> w" by (rule ch)
      ultimately show False by simp
    qed
    with Cons.prems(3) have in_rest: "sl0 \<in> set rest" by simp
    have "getSlot h1 orig sl0 = getSlot h orig sl0" by (rule getSlot_cong) (simp add: e)
    with Cons.prems(4) have g: "getSlot h1 orig sl0 = w" by simp
    from run2 o1 in_rest g show ?thesis by (rule Cons.IH)
  next
    case False
    with run call r1 stk2
    have "slotLoop f rest orig (length h1) stk
            (setSlot (h1 @ [copyOf (h1 ! orig)]) (length h1) sl jv) = Some (Done ob', stk', h')"
      by simp
    from slotLoop_ob [OF this] o1 have "ob' = length h1" by simp
    with o1 show ?thesis by simp
  qed
qed

lemma slotLoop_plain:
  assumes fr: "framed f" and op: "outPlain N n stk1 C1 f"
    and S1: "insert orig S0 \<subseteq> refs stk1 \<union> C1" and oN: "orig < N" and NL: "N \<le> L"
  shows "slotLoop f sls orig ob stk1 h = Some (Done ob', stk', h') \<Longrightarrow>
         loopInv N L S0 n orig h ob past sls \<Longrightarrow> loopPre N stk1 C1 orig h \<Longrightarrow>
         set sls \<subseteq> set (slots (body (h ! orig))) \<Longrightarrow> distinct sls \<Longrightarrow> past \<inter> set sls = {} \<Longrightarrow>
           loopInv N L S0 n orig h' ob' (past \<union> set sls) []
           \<and> slots (body (h' ! ob')) = slots (body (h ! ob))"
proof (induction sls arbitrary: ob h past)
  case Nil
  then show ?case by auto
next
  case (Cons sl rest)
  note run = Cons.prems(1) and inv = Cons.prems(2) and pre = Cons.prems(3)
  from Cons.prems(4) have slin: "sl \<in> set (slots (body (h ! orig)))"
    and sub: "set rest \<subseteq> set (slots (body (h ! orig)))" by simp_all
  from Cons.prems(5) have nr: "sl \<notin> set rest" and dr: "distinct rest" by simp_all
  from Cons.prems(6) have nd: "sl \<notin> past" and dj: "insert sl past \<inter> set rest = {}"
    using nr by auto
  from inv have c: "clean N h" and L: "L \<le> length h" and ob: "ob < length h" "ob = orig \<or> L \<le> ob"
    by (simp_all add: loopInv_def)
  have cp: "callPre N stk1 C1 h (getSlot h orig sl)" using pre c slin by (rule loopPre_callPre)
  from run obtain r1 stk2 h1 where call: "f (getSlot h orig sl) (slotKey sl) stk1 h = Some (r1, stk2, h1)"
    by (cases "f (getSlot h orig sl) (slotKey sl) stk1 h") auto
  from run call obtain jv where r1: "r1 = Done jv" by (cases r1) auto
  from call r1 have call': "f (getSlot h orig sl) (slotKey sl) stk1 h = Some (Done jv, stk2, h1)"
    by simp
  from outPlainD [OF op call' cp]
  have pj: "plain n h1 (refs stk1 \<union> C1) (callFoot N h h1) jv" .
  from framedD [OF fr call] r1 have k: "keeps (length h) h h1" and stk2: "stk2 = stk1" by simp_all
  from k have len: "length h \<le> length h1" by (simp add: keeps_def)
  have inv1: "loopInv N L S0 n orig h1 ob past (sl # rest)"
    using inv k oN NL by (rule loopInv_advance)
  from NL L have Nh: "N \<le> length h" by simp
  with k have kN: "keeps N h h1" by (rule keeps_mono)
  have pre1: "loopPre N stk1 C1 orig h1" using pre kN by (rule loopPre_keeps)
  from kN oN have eo: "h1 ! orig = h ! orig" by (simp add: keeps_def)
  from sub eo have sub1: "set rest \<subseteq> set (slots (body (h1 ! orig)))" by simp
  have g_orig: "getSlot h1 orig sl = getSlot h orig sl"
    by (rule getSlot_cong) (simp add: eo)
  from pj have pj2: "plain n h1 (insert ob S0) (childFoot N L h1 ob) jv"
  proof (rule plain_transfer)
    show "\<forall>x \<in> callFoot N h h1. x < length h1 \<longrightarrow> h1 ! x = h1 ! x" by simp
    show "length h1 \<le> length h1" by simp
    show "insert ob S0 \<inter> callFoot N h h1 \<subseteq> refs stk1 \<union> C1"
      using ob NL S1 by (auto simp: callFoot_def)
    show "callFoot N h h1 \<subseteq> childFoot N L h1 ob"
      using ob L by (auto simp: callFoot_def childFoot_def)
  qed
  have un: "past \<union> set (sl # rest) = insert sl past \<union> set rest" by simp
  from k ob have eob: "h1 ! ob = h ! ob" by (simp add: keeps_def)
  show ?case
  proof (cases "strictEq (getSlot h orig sl) jv")
    case True
    with run call r1 stk2 have run2: "slotLoop f rest orig ob stk1 h1 = Some (Done ob', stk', h')"
      by simp
    from True have "getSlot h orig sl = jv" by (simp add: strictEq_def)
    with pj2 g_orig have "plain n h1 (insert ob S0) (childFoot N L h1 ob) (getSlot h1 orig sl)"
      by simp
    with inv1 have inv2: "loopInv N L S0 n orig h1 ob (insert sl past) rest" by (rule loopInv_same)
    from Cons.IH [OF run2 inv2 pre1 sub1 dr dj]
    have res: "loopInv N L S0 n orig h' ob' (insert sl past \<union> set rest) []"
        "slots (body (h' ! ob')) = slots (body (h1 ! ob))" by simp_all
    with un eob show ?thesis by simp
  next
    case False
    show ?thesis
    proof (cases "ob = orig")
      case True
      let ?h2 = "setSlot (h1 @ [copyOf (h1 ! orig)]) (length h1) sl jv"
      from run call r1 stk2 False True
      have run2: "slotLoop f rest orig (length h1) stk1 ?h2 = Some (Done ob', stk', h')" by simp
      from inv1 True have inv1': "loopInv N L S0 n orig h1 orig past (sl # rest)" by simp
      from pj2 True have pj3: "plain n h1 (insert orig S0) (childFoot N L h1 orig) jv" by simp
      from loopInv_copy [OF inv1' pj3 nd nr oN NL]
      have inv2: "loopInv N L S0 n orig ?h2 (length h1) (insert sl past) rest"
        and sl2: "slots (body (?h2 ! length h1)) = slots (body (h1 ! orig))" by simp_all
      from Nh len have N1: "N \<le> length h1" by simp
      then have "keeps N h1 (h1 @ [copyOf (h1 ! orig)])" by (rule keeps_append)
      moreover from N1 have "keeps N (h1 @ [copyOf (h1 ! orig)]) ?h2" by (rule keeps_setSlot)
      ultimately have k2: "keeps N h1 ?h2" by (rule keeps_trans)
      have pre2: "loopPre N stk1 C1 orig ?h2" using pre1 k2 by (rule loopPre_keeps)
      from k2 oN have "?h2 ! orig = h1 ! orig" by (simp add: keeps_def)
      with sub1 have sub2: "set rest \<subseteq> set (slots (body (?h2 ! orig)))" by simp
      from Cons.IH [OF run2 inv2 pre2 sub2 dr dj]
      have res: "loopInv N L S0 n orig h' ob' (insert sl past \<union> set rest) []"
          "slots (body (h' ! ob')) = slots (body (?h2 ! length h1))" by simp_all
      with un sl2 True eob show ?thesis by simp
    next
      case ne: False
      let ?h2 = "setSlot h1 ob sl jv"
      from run call r1 stk2 False ne
      have run2: "slotLoop f rest orig ob stk1 ?h2 = Some (Done ob', stk', h')" by simp
      from loopInv_write [OF inv1 ne pj2 nd nr oN NL]
      have inv2: "loopInv N L S0 n orig ?h2 ob (insert sl past) rest"
        and sl2: "slots (body (?h2 ! ob)) = slots (body (h1 ! ob))" by simp_all
      from ob ne NL have "N \<le> ob" by simp
      then have k2: "keeps N h1 ?h2" by (rule keeps_setSlot)
      have pre2: "loopPre N stk1 C1 orig ?h2" using pre1 k2 by (rule loopPre_keeps)
      from k2 oN have "?h2 ! orig = h1 ! orig" by (simp add: keeps_def)
      with sub1 have sub2: "set rest \<subseteq> set (slots (body (?h2 ! orig)))" by simp
      from Cons.IH [OF run2 inv2 pre2 sub2 dr dj]
      have res: "loopInv N L S0 n orig h' ob' (insert sl past \<union> set rest) []"
          "slots (body (h' ! ob')) = slots (body (?h2 ! ob))" by simp_all
      with un sl2 eob show ?thesis by simp
    qed
  qed
qed

lemma bodyVals_getSlot:
  assumes d: "distinct (slots (body (h ! a)))" and c: "c \<in> set (bodyVals (body (h ! a)))"
  shows "\<exists>sl \<in> set (slots (body (h ! a))). getSlot h a sl = c"
proof (cases "body (h ! a)")
  case (Array es)
  with c obtain i where "i < length es" "es ! i = c" by (auto simp: in_set_conv_nth)
  with Array have "Index i \<in> set (slots (body (h ! a)))" "getSlot h a (Index i) = c"
    by (simp_all add: arrayGet_def)
  then show ?thesis by blast
next
  case (Object ps)
  with c obtain k where p: "(k, c) \<in> set ps" by auto
  from d Object have "distinct (map fst ps)" by (auto simp: distinct_map inj_on_def)
  with p have "map_of ps k = Some c" by simp
  with Object p have "Key k \<in> set (slots (body (h ! a)))" "getSlot h a (Key k) = c"
    by (auto simp: objectGet_def intro: rev_image_eqI)
  then show ?thesis by blast
qed

text \<open>On a clean heap a call that returns a value returns a plain one.\<close>

lemma safeJsonObject_outPlain: "outPlain N n stk C (safeJsonObject n)"
proof (induction n arbitrary: stk C)
  case 0
  show ?case by (simp add: outPlain_def)
next
  case (Suc n)
  show ?case
    unfolding outPlain_def
  proof (intro allI impI, elim conjE)
    fix v k h v' stk' h'
    assume run: "safeJsonObject (Suc n) v k stk h = Some (Done v', stk', h')"
      and cp: "callPre N stk C h v"
    from cp have c: "clean N h" and av: "argOK N v" and so: "stackOK N stk"
      and CN: "\<forall>b \<in> C. b < N"
      and frC: "\<forall>b \<in> C. \<exists>sl \<in> set (slots (body (h ! b))). getSlot h b sl \<in> set (stk @ [v])"
      and tjC: "\<forall>s \<in> refs stk. toJSON (h ! s) = None \<longrightarrow> s \<in> C"
      by (simp_all add: callPre_def)
    show "plain (Suc n) h' (refs stk \<union> C) (callFoot N h h') v'"
    proof (cases "v = JUndefined \<or> v = JNull")
      case True
      with run have "v' = v" by (auto simp: safeJsonObject_Suc)
      with True show ?thesis by auto
    next
      case nn: False
      show ?thesis
      proof (cases "\<exists>orig. callToJSON h v k = JRef orig")
        case False
        have nnan: "callToJSON h v k \<noteq> JNaN"
        proof (cases v)
          case (JRef a)
          with av have aN: "a < N" by (simp add: argOK_def refOK_def)
          from clean_callToJSON [OF c JRef aN, of k] show ?thesis by (auto simp: okConv_def)
        qed (use av in \<open>simp_all add: callToJSON_def argOK_def\<close>)
        from run nn False nnan show ?thesis
          by (auto simp: safeJsonObject_Suc circular_def split: val.splits if_splits)
      next
        case True
        then obtain orig where conv: "callToJSON h v k = JRef orig" ..
        have "\<exists>a. v = JRef a"
        proof (cases v)
          case (JRef a)
          then show ?thesis by simp
        qed (use conv in \<open>simp_all add: callToJSON_def\<close>)
        then obtain a where v: "v = JRef a" ..
        from callPre_loopPre [OF cp v conv]
        have pre: "loopPre N (stk @ [v]) (insert orig C) orig h" and oN: "orig < N"
          and ot: "toJSON (h ! orig) = None" by simp_all
        from c have NL: "N \<le> length h" by (simp add: clean_def closedBelow_def)
        with oN have ol: "orig < length h" by simp
        show ?thesis
        proof (cases "v \<in> set stk")
          case True
          with run nn conv have "v' = circular" by (simp add: safeJsonObject_Suc)
          then show ?thesis by (simp add: circular_def)
        next
          case ns: False
          let ?stk1 = "stk @ [v]"
          let ?C1 = "insert orig C"
          let ?S = "refs stk \<union> C"
          from run nn conv ns ol obtain ob' stk2 where
            loop: "slotLoop (safeJsonObject n) (slots (body (h ! orig))) orig orig ?stk1 h
                     = Some (Done ob', stk2, h')"
            and v': "v' = JRef ob'"
            by (cases "slotLoop (safeJsonObject n) (slots (body (h ! orig))) orig orig ?stk1 h")
               (auto simp: safeJsonObject_Suc split: outcome.splits)
          have op: "outPlain N n ?stk1 ?C1 (safeJsonObject n)" by (rule Suc.IH)
          have S1: "insert orig ?S \<subseteq> refs ?stk1 \<union> ?C1" using v by auto
          have inv0: "loopInv N (length h) ?S n orig h orig {} (slots (body (h ! orig)))"
            using c ol ot by (simp add: loopInv_def)
          have ds: "distinct (slots (body (h ! orig)))" using c oN by (rule clean_distinct_slots)
          have sub: "set (slots (body (h ! orig))) \<subseteq> set (slots (body (h ! orig)))" by simp
          from slotLoop_plain [OF safeJsonObject_framed op S1 oN NL loop inv0 pre sub ds]
          have inv: "loopInv N (length h) ?S n orig h' ob' (set (slots (body (h ! orig)))) []"
            and sl: "slots (body (h' ! ob')) = slots (body (h ! orig))" by simp_all
          from inv have ob': "ob' < length h'" "ob' = orig \<or> length h \<le> ob'"
            and tj': "toJSON (h' ! ob') = None"
            and past: "\<forall>s \<in> set (slots (body (h ! orig))).
                         plain n h' (insert ob' ?S) (childFoot N (length h) h' ob') (getSlot h' ob' s)"
            by (simp_all add: loopInv_def)
          have ni: "ob' \<notin> ?S"
          proof
            assume mem: "ob' \<in> ?S"
            with so CN have "ob' < N" by (auto simp: stackOK_def refs_def)
            with ob'(2) NL have eq: "ob' = orig" by auto
            have "orig \<in> C"
            proof (cases "orig \<in> C")
              case False
              with mem eq have "orig \<in> refs stk" by simp
              with tjC ot show ?thesis by simp
            qed
            with frC obtain sl0 where sl0: "sl0 \<in> set (slots (body (h ! orig)))"
              and w: "getSlot h orig sl0 \<in> set ?stk1" by blast
            from pre have "stackOK N ?stk1" by (simp add: loopPre_def)
            with w obtain s where s: "getSlot h orig sl0 = JRef s" by (auto simp: stackOK_def)
            from w s have ws: "JRef s \<in> set ?stk1" by simp
            have ch: "\<And>k h jv stk' h'.
                        safeJsonObject n (JRef s) k ?stk1 h = Some (Done jv, stk', h') \<Longrightarrow> jv \<noteq> JRef s"
              using ws by (rule safeJsonObject_on_stack)
            from slotLoop_changed [OF safeJsonObject_framed ch loop ol sl0 s]
            have "ob' \<noteq> orig" .
            with eq show False by simp
          qed
          have inF: "ob' \<in> callFoot N h h'" using ob' oN by (auto simp: callFoot_def)
          have ch: "\<forall>c \<in> set (bodyVals (body (h' ! ob'))).
                      plain n h' (insert ob' ?S) (callFoot N h h') c"
          proof
            fix x assume x: "x \<in> set (bodyVals (body (h' ! ob')))"
            from ds sl have "distinct (slots (body (h' ! ob')))" by simp
            from bodyVals_getSlot [OF this x] sl obtain s where
              s: "s \<in> set (slots (body (h ! orig)))" "getSlot h' ob' s = x" by auto
            with past have "plain n h' (insert ob' ?S) (childFoot N (length h) h' ob') x"
              by auto
            then show "plain n h' (insert ob' ?S) (callFoot N h h') x"
              by (rule plain_transfer) (auto simp: childFoot_def callFoot_def)
          qed
          from ni inF ob'(1) tj' ch have "plain (Suc n) h' ?S (callFoot N h h') (JRef ob')"
            by (simp only: plain_Suc_ref simp_thms)
          with v' show ?thesis by simp
        qed
      qed
    qed
  qed
qed

lemma plain_mono: "plain d h S F v \<Longrightarrow> d \<le> d' \<Longrightarrow> plain d' h S F v"
proof (induction d arbitrary: d' v S)
  case 0
  then show ?case by simp
next
  case (Suc d)
  from Suc.prems(2) obtain e where d': "d' = Suc e" and le: "d \<le> e" by (cases d') auto
  show ?case
  proof (cases v)
    case (JRef a)
    from Suc.prems(1) JRef have a: "a \<notin> S" "a \<in> F" "a < length h" "toJSON (h ! a) = None"
      and ch: "\<forall>c \<in> set (bodyVals (body (h ! a))). plain d h (insert a S) F c"
      by simp_all
    have "\<forall>c \<in> set (bodyVals (body (h ! a))). plain e h (insert a S) F c"
    proof
      fix c assume "c \<in> set (bodyVals (body (h ! a)))"
      with ch have "plain d h (insert a S) F c" by simp
      then show "plain e h (insert a S) F c" using le by (rule Suc.IH)
    qed
    with a JRef d' show ?thesis by simp
  qed (use Suc.prems(1) d' in simp_all)
qed

lemma refs_Nil [simp]: "refs [] = {}"
  by (simp add: refs_def)


subsection \<open>Sanitizing twice\<close>

text \<open>
  Claim C8, amended. For every value of a finite object graph that holds no \<open>NaN\<close>
  and in which every \<open>toJSON\<close> method returns a primitive other than \<open>null\<close> and
  \<open>NaN\<close>, or an object that has no \<open>toJSON\<close> method of its own, \<open>safeJsonObject(x)\<close>
  returns a value, and \<open>safeJsonObject\<close> of that value returns the same value (for an
  object or an array, the same reference) and leaves the heap as it was: the second
  call copies and writes nothing.
\<close>

theorem safeJsonObject_idempotent:
  assumes c: "clean (length h) h" and av: "argOK (length h) v"
  shows "\<exists>v' h'. safeJson h v = Some (Done v', h') \<and> safeJson h' v' = Some (Done v', h')"
proof -
  let ?n = "Suc (length h)"
  from av have rk: "refOK (length h) v" by (simp add: argOK_def)
  from safeJson_run [OF clean_closed [OF c] rk] clean_calm [OF c]
  obtain v' h' where sj: "safeJson h v = Some (Done v', h')" by blast
  then obtain stk' where run: "safeJsonObject ?n v [] [] h = Some (Done v', stk', h')"
    by (auto simp: safeJson_def split: option.splits prod.splits)
  have cp: "callPre (length h) [] {} h v" using c av by (simp add: callPre_def stackOK_def refs_def)
  from outPlainD [OF safeJsonObject_outPlain run cp]
  have p: "plain ?n h' (refs []) (callFoot (length h) h h') v'" by simp
  from framedD [OF safeJsonObject_framed run]
  have len: "length h \<le> length h'" by (simp add: keeps_def)
  then have "Suc (length h) \<le> Suc (length h')" by simp
  with p have "plain (Suc (length h')) h' (refs []) (callFoot (length h) h h') v'"
    by (rule plain_mono)
  then have "safeJsonObject (Suc (length h')) v' [] [] h' = Some (Done v', [], h')"
    by (rule safeJsonObject_stable)
  with sj show ?thesis by (simp add: safeJson_def)
qed

text \<open>An object with a self-reference, a date whose \<open>toJSON\<close> gives a string, a bigint,
  and a child whose \<open>toJSON\<close> gives another object of the graph: the first call returns
  a copy with the four children replaced, the second call returns that copy.\<close>

definition datedHeap :: heap where
  "datedHeap =
     [\<lparr> body = Object [(''self'', JRef 0), (''when'', JRef 1), (''size'', JBigInt 5),
                       (''view'', JRef 2)],
        toJSON = None, ctor = Some ''Object'', err = None \<rparr>,
      \<lparr> body = Object [],
        toJSON = Some (ClassMethod, \<lambda>bs self k. JStr ''2020-01-01T00:00:00.000Z''),
        ctor = Some ''Date'', err = None \<rparr>,
      \<lparr> body = Object [(''hidden'', JNum 7)], toJSON = Some (ClassMethod, \<lambda>bs self k. JRef 3),
        ctor = Some ''View'', err = None \<rparr>,
      \<lparr> body = Object [(''shown'', JNum 1)], toJSON = None, ctor = Some ''Object'', err = None \<rparr>]"

definition datedCopy :: obj where
  "datedCopy =
     \<lparr> body = Object [(''self'', JStr ''[Circular]''), (''when'', JStr ''2020-01-01T00:00:00.000Z''),
                      (''size'', JStr ''5n''), (''view'', JRef 3)],
       toJSON = None, ctor = None, err = None \<rparr>"

lemma datedHeap_clean: "clean 4 datedHeap"
  by (simp add: clean_def closedBelow_def okConv_def refOK_def datedHeap_def less_Suc_eq
        eval_nat_numeral nth_Cons')

lemma datedHeap_run: "safeJson datedHeap (JRef 0) = Some (Done (JRef 4), datedHeap @ [datedCopy])"
  by (simp add: safeJson_def eval_nat_numeral safeJsonObject_Suc datedHeap_def datedCopy_def
        callToJSON_def objectGet_def objectSet_def copyOf_def circular_def nth_Cons'
        show_int_def show_nat.simps digit_char_def strictEq_def)

theorem safeJsonObject_idempotent_witness:
  "clean (length datedHeap) datedHeap \<and> argOK (length datedHeap) (JRef 0)
   \<and> safeJson datedHeap (JRef 0) = Some (Done (JRef 4), datedHeap @ [datedCopy])
   \<and> safeJson (datedHeap @ [datedCopy]) (JRef 4) = Some (Done (JRef 4), datedHeap @ [datedCopy])"
proof -
  have l: "length datedHeap = 4" by (simp add: datedHeap_def)
  have c: "clean (length datedHeap) datedHeap" unfolding l by (rule datedHeap_clean)
  have v: "argOK (length datedHeap) (JRef 0)" by (simp add: l argOK_def refOK_def)
  from safeJsonObject_idempotent [OF c v] datedHeap_run
  have "safeJson (datedHeap @ [datedCopy]) (JRef 4) = Some (Done (JRef 4), datedHeap @ [datedCopy])"
    by auto
  with c v datedHeap_run show ?thesis by simp
qed

text \<open>
  The claim as stated has no condition on \<open>toJSON\<close> and none on \<open>NaN\<close>. The method
  is called once, on the argument, and its result is returned without a second
  conversion: for an object whose \<open>toJSON\<close> returns a date (an object with a \<open>toJSON\<close>
  of its own), the first call returns the date and the second call, on that result,
  returns its string. And \<open>NaN !== NaN\<close>: an array that holds a \<open>NaN\<close> is copied by
  every call, so the second call returns another array than the first.
\<close>

definition chainHeap :: heap where
  "chainHeap =
     [\<lparr> body = Object [],
        toJSON = Some (ClassMethod, \<lambda>bs self k. JStr ''2020-01-01T00:00:00.000Z''),
        ctor = Some ''Date'', err = None \<rparr>,
      \<lparr> body = Object [(''at'', JRef 0)], toJSON = Some (OwnProperty, \<lambda>bs self k. JRef 0),
        ctor = Some ''Object'', err = None \<rparr>]"

definition nanHeap :: heap where
  "nanHeap = [\<lparr> body = Array [JNaN], toJSON = None, ctor = Some ''Array'', err = None \<rparr>]"

definition nanCopy :: obj where
  "nanCopy = \<lparr> body = Array [JNaN], toJSON = None, ctor = Some ''Array'', err = None \<rparr>"

theorem safeJsonObject_idempotent_counterexample:
  "safeJson chainHeap (JRef 1) = Some (Done (JRef 0), chainHeap)
   \<and> safeJson chainHeap (JRef 0) = Some (Done (JStr ''2020-01-01T00:00:00.000Z''), chainHeap)
   \<and> JStr ''2020-01-01T00:00:00.000Z'' \<noteq> JRef 0
   \<and> safeJson nanHeap (JRef 0) = Some (Done (JRef 1), nanHeap @ [nanCopy])
   \<and> safeJson (nanHeap @ [nanCopy]) (JRef 1) = Some (Done (JRef 2), nanHeap @ [nanCopy, nanCopy])
   \<and> JRef 2 \<noteq> JRef 1"
  by (simp add: safeJson_def eval_nat_numeral safeJsonObject_Suc chainHeap_def nanHeap_def nanCopy_def
        callToJSON_def objectGet_def objectSet_def arrayGet_def arraySet_def copyOf_def nth_Cons'
        strictEq_def)

end
